theory Spec2Isabelle
  imports Main "HOL-Library.Multiset"
begin

section \<open>Python values: errors, indexing, iterables\<close>

text \<open>
  The program is a single Python module, \<^verbatim>\<open>ai.py\<close>. Exceptions are values of
  type \<open>error\<close>; a function that can raise returns \<open>error + 'a\<close> with \<open>Inl\<close> the
  exception. Coordinates are Python integers, hence \<open>int\<close>. A grid is a list of rows, a
  row a list of one-character strings, here a list of \<open>char\<close>.
\<close>

datatype error = ValueError | IndexError | TypeError | RecursionError

type_synonym grid = "char list list"

type_synonym pos = "int \<times> int"

definition newline :: char where
  "newline = CHR 0x0A"

definition space :: char where
  "space = CHR '' ''"

definition wall :: char where
  "wall = CHR ''#''"

text \<open>\<^verbatim>\<open>xs[i]\<close>: a negative index counts from the end, anything outside raises.\<close>

definition norm_index :: "nat \<Rightarrow> int \<Rightarrow> nat option" where
  "norm_index len i =
     (if 0 \<le> i then (if i < int len then Some (nat i) else None)
      else (if 0 \<le> int len + i then Some (nat (int len + i)) else None))"

definition py_get :: "'a list \<Rightarrow> int \<Rightarrow> error + 'a" where
  "py_get xs i = (case norm_index (length xs) i of None \<Rightarrow> Inl IndexError | Some j \<Rightarrow> Inr (xs ! j))"

definition py_set :: "'a list \<Rightarrow> int \<Rightarrow> 'a \<Rightarrow> error + 'a list" where
  "py_set xs i v =
     (case norm_index (length xs) i of None \<Rightarrow> Inl IndexError | Some j \<Rightarrow> Inr (xs[j := v]))"

text \<open>\<^verbatim>\<open>grid[y][x]\<close> and \<^verbatim>\<open>grid[y][x] = v\<close>.\<close>

definition cell_at :: "grid \<Rightarrow> int \<Rightarrow> int \<Rightarrow> error + char" where
  "cell_at g x y = (case py_get g y of Inl e \<Rightarrow> Inl e | Inr row \<Rightarrow> py_get row x)"

definition set_cell :: "grid \<Rightarrow> int \<Rightarrow> int \<Rightarrow> char \<Rightarrow> error + grid" where
  "set_cell g x y v =
     (case py_get g y of Inl e \<Rightarrow> Inl e
      | Inr row \<Rightarrow> (case py_set row x v of Inl e \<Rightarrow> Inl e | Inr row' \<Rightarrow> py_set g y row'))"

text \<open>
  An iterable is either a list or a \<^verbatim>\<open>map\<close> object. A \<^verbatim>\<open>map\<close> object is lazy: each
  element is the outcome of applying the function, which may raise when the element is
  consumed. A list is false when empty; a \<^verbatim>\<open>map\<close> object is always true.
\<close>

datatype 'a iterable = ListObj "'a list" | MapObj "(error + 'a) list"

fun truthy :: "'a iterable \<Rightarrow> bool" where
  "truthy (ListObj xs) = (xs \<noteq> [])"
| "truthy (MapObj rs) = True"

fun items :: "'a iterable \<Rightarrow> (error + 'a) list" where
  "items (ListObj xs) = map Inr xs"
| "items (MapObj rs) = rs"

text \<open>
  \<^verbatim>\<open>min(it, key=lambda x: x[1])\<close>: the first element with the least key; ValueError on
  an empty iterable; an exception raised while consuming an element propagates.
\<close>

fun min_scan :: "'a \<times> int \<Rightarrow> (error + 'a \<times> int) list \<Rightarrow> error + 'a \<times> int" where
  "min_scan best [] = Inr best"
| "min_scan best (Inl e # rs) = Inl e"
| "min_scan best (Inr v # rs) = min_scan (if snd v < snd best then v else best) rs"

fun py_min :: "(error + 'a \<times> int) list \<Rightarrow> error + 'a \<times> int" where
  "py_min [] = Inl ValueError"
| "py_min (Inl e # rs) = Inl e"
| "py_min (Inr v # rs) = min_scan v rs"

section \<open>Grid text: \<^verbatim>\<open>parse_grid\<close> and \<^verbatim>\<open>grid_to_string\<close>\<close>

text \<open>
  \<^verbatim>\<open>str.strip()\<close> removes leading and trailing whitespace. Characters are modelled as
  8-bit code points; these are the ones below 256 for which \<^verbatim>\<open>str.isspace\<close> holds.
\<close>

definition is_space :: "char \<Rightarrow> bool" where
  "is_space c = ((of_char c :: nat) \<in> {9, 10, 11, 12, 13, 28, 29, 30, 31, 32, 133, 160})"

definition strip :: "string \<Rightarrow> string" where
  "strip s = rev (dropWhile is_space (rev (dropWhile is_space s)))"

text \<open>\<^verbatim>\<open>s.split('\n')\<close>: the empty string splits into one empty line.\<close>

fun split_nl :: "string \<Rightarrow> string list" where
  "split_nl [] = [[]]"
| "split_nl (c # cs) =
     (if c = newline then [] # split_nl cs
      else (case split_nl cs of [] \<Rightarrow> [[c]] | l # ls \<Rightarrow> (c # l) # ls))"

text \<open>\<^verbatim>\<open>'\n'.join(...)\<close>.\<close>

fun join_nl :: "string list \<Rightarrow> string" where
  "join_nl [] = []"
| "join_nl [l] = l"
| "join_nl (l # k # ls) = l @ newline # join_nl (k # ls)"

definition parse_grid :: "string \<Rightarrow> grid" where
  "parse_grid s = split_nl (strip s)"

definition grid_to_string :: "grid \<Rightarrow> string" where
  "grid_to_string g = join_nl g"

section \<open>Locating a character and Manhattan distance\<close>

text \<open>\<^verbatim>\<open>row.index(char)\<close>, used only where \<^verbatim>\<open>char in row\<close> holds.\<close>

fun index_of :: "'a list \<Rightarrow> 'a \<Rightarrow> nat" where
  "index_of [] c = 0"
| "index_of (a # as) c = (if a = c then 0 else Suc (index_of as c))"

fun scan_rows :: "int \<Rightarrow> grid \<Rightarrow> char \<Rightarrow> pos option" where
  "scan_rows y [] c = None"
| "scan_rows y (row # rows) c =
     (if c \<in> set row then Some (int (index_of row c), y) else scan_rows (y + 1) rows c)"

definition get_character_coordinates :: "grid \<Rightarrow> char \<Rightarrow> pos option" where
  "get_character_coordinates g c = scan_rows 0 g c"

definition calculate_distance :: "grid \<Rightarrow> char \<Rightarrow> char \<Rightarrow> error + int" where
  "calculate_distance g char1 char2 =
     (case get_character_coordinates g char1 of
        None \<Rightarrow> Inl ValueError
      | Some (x1, y1) \<Rightarrow>
          (case get_character_coordinates g char2 of
             None \<Rightarrow> Inl ValueError
           | Some (x2, y2) \<Rightarrow> Inr (\<bar>x1 - x2\<bar> + \<bar>y1 - y2\<bar>)))"

section \<open>Move enumeration: \<^verbatim>\<open>generate_possible_moves\<close>\<close>

text \<open>The list \<^verbatim>\<open>possible_moves\<close>: up, down, left, right.\<close>

definition possible_moves :: "int \<Rightarrow> int \<Rightarrow> pos list" where
  "possible_moves x y = [(x, y - 1), (x, y + 1), (x - 1, y), (x + 1, y)]"

text \<open>
  The comprehension \<^verbatim>\<open>valid_moves\<close>. The conjunction is evaluated left to right, so
  \<^verbatim>\<open>grid[0]\<close> and \<^verbatim>\<open>grid[new_y][new_x]\<close> are read only after the tests before them.
\<close>

fun valid_moves :: "grid \<Rightarrow> pos list \<Rightarrow> error + pos list" where
  "valid_moves g [] = Inr []"
| "valid_moves g ((new_x, new_y) # ps) =
     (if 0 \<le> new_y \<and> new_y < int (length g) then
        (case py_get g 0 of
           Inl e \<Rightarrow> Inl e
         | Inr row0 \<Rightarrow>
             if 0 \<le> new_x \<and> new_x < int (length row0) then
               (case cell_at g new_x new_y of
                  Inl e \<Rightarrow> Inl e
                | Inr c \<Rightarrow>
                    (case valid_moves g ps of
                       Inl e \<Rightarrow> Inl e
                     | Inr r \<Rightarrow> Inr (if c = space then (new_x, new_y) # r else r)))
             else valid_moves g ps)
      else valid_moves g ps)"

text \<open>
  The loop building \<^verbatim>\<open>new_grids\<close>: each grid is a fresh copy of the input with the
  old cell cleared and the new cell set.
\<close>

definition move_to :: "grid \<Rightarrow> char \<Rightarrow> int \<Rightarrow> int \<Rightarrow> pos \<Rightarrow> error + grid" where
  "move_to g c x y p =
     (case set_cell g x y space of
        Inl e \<Rightarrow> Inl e
      | Inr g1 \<Rightarrow> set_cell g1 (fst p) (snd p) c)"

fun new_grids :: "grid \<Rightarrow> char \<Rightarrow> int \<Rightarrow> int \<Rightarrow> pos list \<Rightarrow> error + grid list" where
  "new_grids g c x y [] = Inr []"
| "new_grids g c x y (p # ps) =
     (case move_to g c x y p of
        Inl e \<Rightarrow> Inl e
      | Inr g2 \<Rightarrow>
          (case new_grids g c x y ps of Inl e \<Rightarrow> Inl e | Inr r \<Rightarrow> Inr (g2 # r)))"

definition generate_possible_moves :: "grid \<Rightarrow> char \<Rightarrow> error + grid list" where
  "generate_possible_moves g c =
     (case get_character_coordinates g c of
        None \<Rightarrow> Inl ValueError
      | Some (x, y) \<Rightarrow>
          (case valid_moves g (possible_moves x y) of
             Inl e \<Rightarrow> Inl e
           | Inr vm \<Rightarrow> new_grids g c x y vm))"

section \<open>Move selection: \<^verbatim>\<open>find_best_move\<close>, \<^verbatim>\<open>make_move\<close>\<close>

text \<open>\<^verbatim>\<open>None\<close> is the result \<open>Inr None\<close>.\<close>

definition find_best_move :: "(grid \<times> int) iterable \<Rightarrow> error + grid option" where
  "find_best_move distances =
     (if \<not> truthy distances then Inr None
      else (case py_min (items distances) of Inl e \<Rightarrow> Inl e | Inr v \<Rightarrow> Inr (Some (fst v))))"

definition calculate_distances :: "grid list \<Rightarrow> char \<Rightarrow> char \<Rightarrow> (grid \<times> int) iterable" where
  "calculate_distances grids char1 char2 =
     MapObj (map (\<lambda>g. case calculate_distance g char1 char2 of
                         Inl e \<Rightarrow> Inl e | Inr d \<Rightarrow> Inr (g, d)) grids)"

text \<open>\<^verbatim>\<open>grid_to_string(None)\<close> iterates over \<^verbatim>\<open>None\<close> and raises TypeError.\<close>

definition render_best :: "error + grid option \<Rightarrow> error + string" where
  "render_best r =
     (case r of Inl e \<Rightarrow> Inl e | Inr None \<Rightarrow> Inl TypeError | Inr (Some b) \<Rightarrow> Inr (grid_to_string b))"

definition make_move :: "string \<Rightarrow> char \<Rightarrow> char \<Rightarrow> error + string" where
  "make_move grid_string char1 char2 =
     (case generate_possible_moves (parse_grid grid_string) char1 of
        Inl e \<Rightarrow> Inl e
      | Inr moves \<Rightarrow> render_best (find_best_move (calculate_distances moves char1 char2)))"

section \<open>Shortest paths: \<^verbatim>\<open>calculate_path_distance\<close>\<close>

definition bfs_directions :: "(int \<times> int) list" where
  "bfs_directions = [(-1, 0), (1, 0), (0, -1), (0, 1)]"

text \<open>
  The inner \<^verbatim>\<open>for dx, dy in directions\<close> loop at the cell \<open>(x, y)\<close>. The state is the
  queue (a deque of positions with their path lengths, appended on the right) and the
  set \<^verbatim>\<open>visited\<close>.
\<close>

fun explore ::
  "grid \<Rightarrow> pos \<Rightarrow> int \<Rightarrow> int \<Rightarrow> int \<Rightarrow> (int \<times> int) list \<Rightarrow>
     (pos \<times> int) list \<times> pos set \<Rightarrow> error + (pos \<times> int) list \<times> pos set" where
  "explore g target x y path_length [] s = Inr s"
| "explore g target x y path_length ((dx, dy) # ds) (queue, visited) =
     (let nx = x + dx; ny = y + dy in
      if 0 \<le> ny \<and> ny < int (length g) then
        (case py_get g 0 of
           Inl e \<Rightarrow> Inl e
         | Inr row0 \<Rightarrow>
             if 0 \<le> nx \<and> nx < int (length row0) \<and> (nx, ny) \<notin> visited then
               (case cell_at g nx ny of
                  Inl e \<Rightarrow> Inl e
                | Inr c \<Rightarrow>
                    if c = space \<or> (nx, ny) = target then
                      explore g target x y path_length ds
                        (queue @ [((nx, ny), path_length + 1)], insert (nx, ny) visited)
                    else explore g target x y path_length ds (queue, visited))
             else explore g target x y path_length ds (queue, visited))
      else explore g target x y path_length ds (queue, visited))"

text \<open>The cells inside the bounds that the search tests: rows of the grid, columns of row 0.\<close>

definition cells :: "grid \<Rightarrow> pos set" where
  "cells g = {0..<int (length (hd g))} \<times> {0..<int (length g)}"

definition in_bounds :: "grid \<Rightarrow> pos \<Rightarrow> bool" where
  "in_bounds g p = (0 \<le> snd p \<and> snd p < int (length g) \<and> 0 \<le> fst p \<and> fst p < int (length (hd g)))"

lemma explore_grows:
  "explore g t x y d ds (q, V) = Inr (q', V') \<Longrightarrow>
     V \<subseteq> V' \<and> (\<forall>p \<in> V' - V. in_bounds g p) \<and> ((q' = q \<and> V' = V) \<or> V \<noteq> V')"
proof (induction ds arbitrary: q V)
  case Nil
  then show ?case by simp
next
  case (Cons a ds)
  obtain dx dy where a: "a = (dx, dy)" by (cases a)
  show ?case
  proof (cases "0 \<le> y + dy \<and> y + dy < int (length g)")
    case False
    with Cons.prems a have "explore g t x y d ds (q, V) = Inr (q', V')"
      by (simp add: Let_def)
    from Cons.IH [OF this] show ?thesis .
  next
    case inrow: True
    then have g0: "py_get g 0 = Inr (hd g)"
      by (cases g) (auto simp: py_get_def norm_index_def)
    show ?thesis
    proof (cases "0 \<le> x + dx \<and> x + dx < int (length (hd g)) \<and> (x + dx, y + dy) \<notin> V")
      case False
      with Cons.prems a inrow g0 have "explore g t x y d ds (q, V) = Inr (q', V')"
        by (simp add: Let_def)
      from Cons.IH [OF this] show ?thesis .
    next
      case incol: True
      show ?thesis
      proof (cases "cell_at g (x + dx) (y + dy)")
        case (Inl e)
        with Cons.prems a inrow g0 incol show ?thesis by (simp add: Let_def)
      next
        case (Inr c)
        show ?thesis
        proof (cases "c = space \<or> (x + dx, y + dy) = t")
          case False
          with Cons.prems a inrow g0 incol Inr
          have "explore g t x y d ds (q, V) = Inr (q', V')"
            by (simp add: Let_def)
          from Cons.IH [OF this] show ?thesis .
        next
          case True
          with Cons.prems a inrow g0 incol Inr
          have "explore g t x y d ds
                  (q @ [((x + dx, y + dy), d + 1)], insert (x + dx, y + dy) V) = Inr (q', V')"
            by (simp add: Let_def)
          from Cons.IH [OF this] inrow incol show ?thesis
            by (auto simp: in_bounds_def)
        qed
      qed
    qed
  qed
qed

text \<open>The \<^verbatim>\<open>while queue\<close> loop.\<close>

function bfs_loop :: "grid \<Rightarrow> pos \<Rightarrow> (pos \<times> int) list \<Rightarrow> pos set \<Rightarrow> error + int" where
  "bfs_loop g target [] visited = Inr (- 1)"
| "bfs_loop g target (((x, y), path_length) # queue) visited =
     (if (x, y) = target then Inr path_length
      else (case explore g target x y path_length bfs_directions (queue, visited) of
              Inl e \<Rightarrow> Inl e
            | Inr (queue', visited') \<Rightarrow> bfs_loop g target queue' visited'))"
  by pat_completeness auto

lemma in_bounds_cells: "in_bounds g p \<longleftrightarrow> p \<in> cells g"
  by (cases p) (auto simp: in_bounds_def cells_def)

lemma finite_cells: "finite (cells g)"
  by (simp add: cells_def)

termination bfs_loop
proof (relation "measures [\<lambda>(g, t, q, V). card (cells g - V), \<lambda>(g, t, q, V). length q]")
  show "wf (measures [\<lambda>(g, t, q, V). card (cells g - V), \<lambda>(g :: grid, t :: pos, q :: (pos \<times> int) list, V). length q])"
    by simp
next
  fix g :: grid and target :: pos and x y path_length :: int
    and queue :: "(pos \<times> int) list" and visited :: "pos set"
    and r queue' visited'
  assume ex: "explore g target x y path_length bfs_directions (queue, visited) = Inr r"
    and r: "(queue', visited') = r"
  from ex r have "explore g target x y path_length bfs_directions (queue, visited) = Inr (queue', visited')"
    by simp
  from explore_grows [OF this]
  have sub: "visited \<subseteq> visited'"
    and inb: "\<forall>p \<in> visited' - visited. in_bounds g p"
    and alt: "(queue' = queue \<and> visited' = visited) \<or> visited \<noteq> visited'"
    by blast+
  from alt show "((g, target, queue', visited'), (g, target, ((x, y), path_length) # queue, visited))
      \<in> measures [\<lambda>(g, t, q, V). card (cells g - V), \<lambda>(g, t, q, V). length q]"
  proof
    assume "queue' = queue \<and> visited' = visited"
    then show ?thesis by simp
  next
    assume "visited \<noteq> visited'"
    with sub obtain p where p: "p \<in> visited'" "p \<notin> visited" by blast
    with inb have "p \<in> cells g" by (simp add: in_bounds_cells)
    with p sub have "cells g - visited' \<subset> cells g - visited" by blast
    then have "card (cells g - visited') < card (cells g - visited)"
      by (intro psubset_card_mono) (simp_all add: finite_cells)
    then show ?thesis by simp
  qed
qed

definition calculate_path_distance :: "grid \<Rightarrow> char \<Rightarrow> char \<Rightarrow> error + int" where
  "calculate_path_distance g char1 char2 =
     (case get_character_coordinates g char1 of
        None \<Rightarrow> Inl ValueError
      | Some start \<Rightarrow>
          (case get_character_coordinates g char2 of
             None \<Rightarrow> Inl ValueError
           | Some target \<Rightarrow> bfs_loop g target [(start, 0)] {start}))"

definition calculate_path_distances :: "grid list \<Rightarrow> char \<Rightarrow> char \<Rightarrow> (grid \<times> int) iterable" where
  "calculate_path_distances grids char1 char2 =
     MapObj (map (\<lambda>g. case calculate_path_distance g char1 char2 of
                         Inl e \<Rightarrow> Inl e | Inr d \<Rightarrow> Inr (g, d)) grids)"

definition make_smart_move :: "string \<Rightarrow> char \<Rightarrow> char \<Rightarrow> error + string" where
  "make_smart_move grid_string char1 char2 =
     (case generate_possible_moves (parse_grid grid_string) char1 of
        Inl e \<Rightarrow> Inl e
      | Inr moves \<Rightarrow> render_best (find_best_move (calculate_path_distances moves char1 char2)))"

section \<open>Maze generation: \<^verbatim>\<open>generate_maze\<close>\<close>

text \<open>
  The random source is explicit. \<^verbatim>\<open>random.choice(seq)\<close> takes a natural number \<open>r\<close>
  from it and returns the element at \<open>r mod len(seq)\<close>, so every element can be chosen;
  on an empty sequence it raises IndexError. \<^verbatim>\<open>random.shuffle(directions)\<close> is the
  \<open>k\<close>-th shuffle of the run; its outcome is \<open>sh k\<close>, a rearrangement of the four
  directions, and the state carries the number \<open>k\<close> of shuffles made so far. Each call of
  \<^verbatim>\<open>carve_passages\<close> shuffles exactly once, so that number is also the number of cells
  the carving has visited.
\<close>

definition carve_directions :: "(int \<times> int) list" where
  "carve_directions = [(0, 2), (0, - 2), (2, 0), (- 2, 0)]"

definition valid_shuffles :: "(nat \<Rightarrow> (int \<times> int) list) \<Rightarrow> bool" where
  "valid_shuffles sh = (\<forall>k. mset (sh k) = mset carve_directions)"

definition initialize_grid :: "int \<Rightarrow> int \<Rightarrow> grid" where
  "initialize_grid n m = replicate (nat n) (replicate (nat m) wall)"

text \<open>\<^verbatim>\<open>range(start, stop, step)\<close> for a positive step.\<close>

definition py_range :: "int \<Rightarrow> int \<Rightarrow> int \<Rightarrow> int list" where
  "py_range start stop step = map (\<lambda>i. start + step * int i) [0..<nat ((stop - start + step - 1) div step)]"

definition random_choice :: "'a list \<Rightarrow> nat \<Rightarrow> error + 'a" where
  "random_choice xs r = (if xs = [] then Inl IndexError else Inr (xs ! (r mod length xs)))"

text \<open>
  \<^verbatim>\<open>carve_passages\<close> and its \<^verbatim>\<open>for dx, dy in directions\<close> loop. The grid is
  mutated in place and shared by all calls; here it is threaded through them.

  The function calls itself from inside its loop, one stack frame for each cell on the
  way from the start to the cell being carved, and the interpreter bounds the depth of
  the stack: a call that would exceed the recursion limit raises RecursionError, which
  nothing in the module catches. \<open>d\<close> is the number of nested activations of
  \<^verbatim>\<open>carve_passages\<close> (each with the call of \<^verbatim>\<open>random.shuffle\<close> it starts with) that
  the stack has room for at a call: with no room left the call raises before it carves
  anything, otherwise the calls made by its loop find room for one activation less.
\<close>

function carve_passages ::
    "nat \<Rightarrow> int \<Rightarrow> int \<Rightarrow> (nat \<Rightarrow> (int \<times> int) list) \<Rightarrow> int \<Rightarrow> int \<Rightarrow> grid \<times> nat
       \<Rightarrow> error + grid \<times> nat"
  and carve_loop ::
    "nat \<Rightarrow> int \<Rightarrow> int \<Rightarrow> (nat \<Rightarrow> (int \<times> int) list) \<Rightarrow> int \<Rightarrow> int \<Rightarrow> (int \<times> int) list
       \<Rightarrow> grid \<times> nat \<Rightarrow> error + grid \<times> nat" where
  "carve_passages d n m sh x y (g, k) =
     (if d = 0 then Inl RecursionError
      else carve_loop (d - 1) n m sh x y (sh k) (g, Suc k))"
| "carve_loop d n m sh x y [] s = Inr s"
| "carve_loop d n m sh x y ((dx, dy) # ds) (g, k) =
     (let nx = x + dx; ny = y + dy in
      if 0 < ny \<and> ny < n - 1 \<and> 0 < nx \<and> nx < m - 1 then
        (case cell_at g nx ny of
           Inl e \<Rightarrow> Inl e
         | Inr c \<Rightarrow>
             if c = wall then
               (case set_cell g nx ny space of
                  Inl e \<Rightarrow> Inl e
                | Inr g1 \<Rightarrow>
                    (case set_cell g1 (x + dx div 2) (y + dy div 2) space of
                       Inl e \<Rightarrow> Inl e
                     | Inr g2 \<Rightarrow>
                         (case carve_passages d n m sh nx ny (g2, k) of
                            Inl e \<Rightarrow> Inl e
                          | Inr s' \<Rightarrow> carve_loop d n m sh x y ds s')))
             else carve_loop d n m sh x y ds (g, k))
      else carve_loop d n m sh x y ds (g, k))"
  by pat_completeness auto

termination carve_passages
  by (relation "measures
    [\<lambda>v. case v of Inl (d, r) \<Rightarrow> d | Inr (d, r) \<Rightarrow> d,
     \<lambda>v. case v of Inl r \<Rightarrow> 0 | Inr (d, n, m, sh, x, y, ds, s) \<Rightarrow> Suc (length ds)]")
    auto

subsection \<open>The generator\<close>

text \<open>
  \<^verbatim>\<open>generate_maze\<close>, called with room for \<open>depth\<close> nested activations of
  \<^verbatim>\<open>carve_passages\<close> on the stack; \<open>generate_maze_run\<close> also returns the number of
  shuffles made.
\<close>

definition generate_maze_run ::
  "nat \<Rightarrow> int \<Rightarrow> int \<Rightarrow> nat \<Rightarrow> nat \<Rightarrow> (nat \<Rightarrow> (int \<times> int) list) \<Rightarrow> error + grid \<times> nat" where
  "generate_maze_run depth n m rx ry sh =
     (case random_choice (py_range 1 m 2) rx of
        Inl e \<Rightarrow> Inl e
      | Inr start_x \<Rightarrow>
          (case random_choice (py_range 1 n 2) ry of
             Inl e \<Rightarrow> Inl e
           | Inr start_y \<Rightarrow>
               (case set_cell (initialize_grid n m) start_x start_y space of
                  Inl e \<Rightarrow> Inl e
                | Inr g \<Rightarrow> carve_passages depth n m sh start_x start_y (g, 0))))"

definition generate_maze ::
  "nat \<Rightarrow> int \<Rightarrow> int \<Rightarrow> nat \<Rightarrow> nat \<Rightarrow> (nat \<Rightarrow> (int \<times> int) list) \<Rightarrow> error + grid" where
  "generate_maze depth n m rx ry sh =
     (case generate_maze_run depth n m rx ry sh of Inl e \<Rightarrow> Inl e | Inr s \<Rightarrow> Inr (fst s))"

section \<open>Row objects and aliasing\<close>

text \<open>
  In Python a grid is a list object holding references to row objects, and
  \<^verbatim>\<open>new_grid[y][x] = v\<close> mutates a row object in place. To state that a call leaves its
  argument alone, rows live in a store, addressed by their index, and a grid object is
  the list of the addresses of its rows. \<^verbatim>\<open>[row[:] for row in grid]\<close> allocates a
  fresh copy of every row.
\<close>

type_synonym store = "char list list"

type_synonym grid_ref = "nat list"

definition deref :: "store \<Rightarrow> grid_ref \<Rightarrow> grid" where
  "deref h r = map (\<lambda>a. h ! a) r"

definition copy_grid :: "store \<Rightarrow> grid_ref \<Rightarrow> store \<times> grid_ref" where
  "copy_grid h r = (h @ map (\<lambda>a. h ! a) r, [length h..<length h + length r])"

definition store_cell :: "store \<Rightarrow> grid_ref \<Rightarrow> int \<Rightarrow> int \<Rightarrow> char \<Rightarrow> error + store" where
  "store_cell h r x y v =
     (case py_get r y of
        Inl e \<Rightarrow> Inl e
      | Inr a \<Rightarrow> (case py_set (h ! a) x v of Inl e \<Rightarrow> Inl e | Inr row' \<Rightarrow> Inr (h[a := row'])))"

fun new_grids_store ::
  "store \<Rightarrow> grid_ref \<Rightarrow> char \<Rightarrow> int \<Rightarrow> int \<Rightarrow> pos list \<Rightarrow> error + store \<times> grid_ref list" where
  "new_grids_store h r c x y [] = Inr (h, [])"
| "new_grids_store h r c x y (p # ps) =
     (case copy_grid h r of
        (h1, new_grid) \<Rightarrow>
          (case store_cell h1 new_grid x y space of
             Inl e \<Rightarrow> Inl e
           | Inr h2 \<Rightarrow>
               (case store_cell h2 new_grid (fst p) (snd p) c of
                  Inl e \<Rightarrow> Inl e
                | Inr h3 \<Rightarrow>
                    (case new_grids_store h3 r c x y ps of
                       Inl e \<Rightarrow> Inl e
                     | Inr (h4, rs) \<Rightarrow> Inr (h4, new_grid # rs)))))"

definition generate_possible_moves_store ::
  "store \<Rightarrow> grid_ref \<Rightarrow> char \<Rightarrow> error + store \<times> grid_ref list" where
  "generate_possible_moves_store h r c =
     (case get_character_coordinates (deref h r) c of
        None \<Rightarrow> Inl ValueError
      | Some (x, y) \<Rightarrow>
          (case valid_moves (deref h r) (possible_moves x y) of
             Inl e \<Rightarrow> Inl e
           | Inr vm \<Rightarrow> new_grids_store h r c x y vm))"

section \<open>Vocabulary of the properties\<close>

text \<open>
  A grid is rectangular when every row is as long as row 0, and well formed when it is
  rectangular and every cell is one of the four glyphs. A position is open when it lies
  inside the bounds and holds a space.
\<close>

definition rectangular :: "grid \<Rightarrow> bool" where
  "rectangular g = (\<forall>row \<in> set g. length row = length (hd g))"

definition glyph :: "char \<Rightarrow> bool" where
  "glyph c = (c = wall \<or> c = space \<or> c = CHR ''P'' \<or> c = CHR ''O'')"

definition well_formed :: "grid \<Rightarrow> bool" where
  "well_formed g = (rectangular g \<and> (\<forall>row \<in> set g. \<forall>c \<in> set row. glyph c))"

definition open_cell :: "grid \<Rightarrow> pos \<Rightarrow> bool" where
  "open_cell g p = (in_bounds g p \<and> g ! nat (snd p) ! nat (fst p) = space)"

text \<open>
  A cell \<open>p\<close> holds the character \<open>c\<close> when \<open>p\<close> lies inside its row, the row inside
  the grid, and \<open>c\<close> is what is stored there. \<open>grid_upd\<close> is the grid after
  \<^verbatim>\<open>grid[y][x] = v\<close> inside the bounds.
\<close>

definition holds :: "grid \<Rightarrow> pos \<Rightarrow> char \<Rightarrow> bool" where
  "holds g p c = (0 \<le> snd p \<and> snd p < int (length g) \<and> 0 \<le> fst p \<and>
                  fst p < int (length (g ! nat (snd p))) \<and> g ! nat (snd p) ! nat (fst p) = c)"

definition grid_upd :: "grid \<Rightarrow> int \<Rightarrow> int \<Rightarrow> char \<Rightarrow> grid" where
  "grid_upd g x y v = g[nat y := (g ! nat y)[nat x := v]]"

text \<open>
  Two positions are adjacent when they differ by one step up, down, left or right. A
  position is passable for a search towards \<open>t\<close> when it lies inside the bounds and
  holds a space or is \<open>t\<close> itself. An open path from \<open>s\<close> to \<open>t\<close> is a list of
  positions, each adjacent to the next, that starts at \<open>s\<close>, ends at \<open>t\<close> and whose
  intermediate positions are open; it has one step less than it has positions.
  \<open>reach g t s k p\<close>: \<open>p\<close> is reached from \<open>s\<close> in \<open>k\<close> steps into passable cells.
\<close>

definition adjacent :: "pos \<Rightarrow> pos \<Rightarrow> bool" where
  "adjacent p q = (\<bar>fst p - fst q\<bar> + \<bar>snd p - snd q\<bar> = 1)"

definition passable :: "grid \<Rightarrow> pos \<Rightarrow> pos \<Rightarrow> bool" where
  "passable g t p = (in_bounds g p \<and> (g ! nat (snd p) ! nat (fst p) = space \<or> p = t))"

fun walk :: "pos list \<Rightarrow> bool" where
  "walk [] = True"
| "walk [p] = True"
| "walk (p # q # ps) = (adjacent p q \<and> walk (q # ps))"

definition open_path :: "grid \<Rightarrow> pos \<Rightarrow> pos \<Rightarrow> pos list \<Rightarrow> bool" where
  "open_path g s t ps =
     (ps \<noteq> [] \<and> hd ps = s \<and> last ps = t \<and> walk ps \<and> (\<forall>p \<in> set (butlast (tl ps)). open_cell g p))"

definition shortest_open_path :: "grid \<Rightarrow> pos \<Rightarrow> pos \<Rightarrow> int" where
  "shortest_open_path g s t =
     (if \<exists>ps. open_path g s t ps
      then int (LEAST n. \<exists>ps. open_path g s t ps \<and> length ps = Suc n) else - 1)"

inductive reach :: "grid \<Rightarrow> pos \<Rightarrow> pos \<Rightarrow> nat \<Rightarrow> pos \<Rightarrow> bool" for g t s where
  reach_start: "reach g t s 0 s"
| reach_step: "reach g t s k p \<Longrightarrow> adjacent p q \<Longrightarrow> passable g t q \<Longrightarrow> reach g t s (Suc k) q"

text \<open>
  The invariant of the \<^verbatim>\<open>while\<close> loop, for a search from \<open>s\<close> towards \<open>t\<close> with
  queue \<open>q\<close> and visited set \<open>V\<close>: the queued positions are distinct and visited;
  each is queued with its exact distance from \<open>s\<close>; the distances in the queue ascend
  and span at most one; a visited position that is no longer queued is not the target
  and has all its passable neighbours visited; and everything within the distance of
  the head of the queue is visited.
\<close>

definition bfs_inv :: "grid \<Rightarrow> pos \<Rightarrow> pos \<Rightarrow> (pos \<times> int) list \<Rightarrow> pos set \<Rightarrow> bool" where
  "bfs_inv g t s q V =
     (s \<in> V \<and> distinct (map fst q) \<and> fst ` set q \<subseteq> V \<and>
      (\<forall>e \<in> set q. 0 \<le> snd e \<and> reach g t s (nat (snd e)) (fst e) \<and>
                     (\<forall>k < nat (snd e). \<not> reach g t s k (fst e))) \<and>
      sorted (map snd q) \<and> (\<forall>e \<in> set q. snd e \<le> snd (hd q) + 1) \<and>
      (\<forall>p \<in> V - fst ` set q. p \<noteq> t \<and> (\<forall>n. adjacent p n \<and> passable g t n \<longrightarrow> n \<in> V)) \<and>
      (\<forall>r k. q \<noteq> [] \<and> reach g t s k r \<and> int k \<le> snd (hd q) \<longrightarrow> r \<in> V))"

text \<open>The candidate grid for a move of \<open>c\<close> from \<open>X\<close> to \<open>p\<close>.\<close>

definition candidate :: "grid \<Rightarrow> char \<Rightarrow> pos \<Rightarrow> pos \<Rightarrow> grid" where
  "candidate g c X p = grid_upd (grid_upd g (fst X) (snd X) space) (fst p) (snd p) c"

text \<open>
  The setting of a pursuit: a rectangular grid in which the mover's tag \<open>c1\<close> occurs
  exactly once, at \<open>X\<close>, the target's tag \<open>c2\<close> exactly once, at \<open>t\<close>, and the two tags
  differ from each other and from the space.
\<close>

definition pursuit :: "grid \<Rightarrow> char \<Rightarrow> char \<Rightarrow> pos \<Rightarrow> pos \<Rightarrow> bool" where
  "pursuit g c1 c2 X t =
     (rectangular g \<and> holds g X c1 \<and> (\<forall>q. holds g q c1 \<longrightarrow> q = X) \<and>
      holds g t c2 \<and> (\<forall>q. holds g q c2 \<longrightarrow> q = t) \<and>
      c1 \<noteq> c2 \<and> c1 \<noteq> space \<and> c2 \<noteq> space)"

text \<open>
  A simple path inside a set \<open>S\<close> of positions is a list of distinct positions of \<open>S\<close>,
  each adjacent to the next. \<open>S\<close> is tree-like when any two of its positions are joined
  by a simple path inside \<open>S\<close> and by only one.
\<close>

definition simple_path :: "pos set \<Rightarrow> pos \<Rightarrow> pos \<Rightarrow> pos list \<Rightarrow> bool" where
  "simple_path S a b ps =
     (ps \<noteq> [] \<and> hd ps = a \<and> last ps = b \<and> walk ps \<and> distinct ps \<and> set ps \<subseteq> S)"

definition tree_like :: "pos set \<Rightarrow> bool" where
  "tree_like S =
     ((\<forall>a \<in> S. \<forall>b \<in> S. \<exists>ps. simple_path S a b ps) \<and>
      (\<forall>a b ps qs. simple_path S a b ps \<and> simple_path S a b qs \<longrightarrow> ps = qs))"

text \<open>
  The open cells of a maze under construction. Cells with two odd coordinates are the
  nodes the carving visits; a cell with one even coordinate, once opened, joins the two
  nodes on either side of it, both open; no cell with two even coordinates is opened.
\<close>

definition lattice_tree :: "pos set \<Rightarrow> bool" where
  "lattice_tree S =
     ((\<forall>p \<in> S. odd (fst p) \<or> odd (snd p)) \<and>
      (\<forall>p \<in> S. even (fst p) \<longrightarrow> (fst p - 1, snd p) \<in> S \<and> (fst p + 1, snd p) \<in> S) \<and>
      (\<forall>p \<in> S. even (snd p) \<longrightarrow> (fst p, snd p - 1) \<in> S \<and> (fst p, snd p + 1) \<in> S) \<and>
      tree_like S)"

text \<open>
  The set of open cells of a grid, their number, and the invariant of the carving: the
  grid has \<open>n\<close> rows of \<open>m\<close> cells and its open cells form a lattice tree.
\<close>

definition opens :: "grid \<Rightarrow> pos set" where
  "opens g = {p. holds g p space}"

definition open_count :: "grid \<Rightarrow> nat" where
  "open_count g = sum_list (map (\<lambda>row. count_list row space) g)"

definition dims :: "int \<Rightarrow> int \<Rightarrow> grid \<Rightarrow> bool" where
  "dims n m g = (length g = nat n \<and> (\<forall>row \<in> set g. length row = nat m))"

definition maze_inv :: "int \<Rightarrow> int \<Rightarrow> grid \<Rightarrow> bool" where
  "maze_inv n m g = (dims n m g \<and> lattice_tree (opens g) \<and> open_count g = card (opens g))"

text \<open>
  The nodes the carving has not visited yet: the cells with two odd coordinates, off the
  border, that still hold a wall. Carving into a cell takes one of them away.
\<close>

definition unvisited :: "int \<Rightarrow> int \<Rightarrow> grid \<Rightarrow> pos set" where
  "unvisited n m g =
     {p. odd (fst p) \<and> odd (snd p) \<and> 0 < fst p \<and> fst p < m - 1 \<and> 0 < snd p \<and> snd p < n - 1 \<and>
         holds g p wall}"

text \<open>
  What a carving call started in state \<open>s\<close> with room for \<open>d\<close> nested activations
  achieves, \<open>c\<close> being the number of shuffles the call itself makes before it recurses.
  Either it raises RecursionError, and then there were at least \<open>d\<close> nodes left to
  visit; or it returns, the invariant holds, no cell is closed again, and every further
  shuffle comes with two more open cells.
\<close>

definition carve_post ::
  "int \<Rightarrow> int \<Rightarrow> nat \<Rightarrow> grid \<times> nat \<Rightarrow> nat \<Rightarrow> error + grid \<times> nat \<Rightarrow> bool" where
  "carve_post n m d s c r =
     ((r = Inl RecursionError \<and> d \<le> card (unvisited n m (fst s))) \<or>
      (\<exists>g' k'. r = Inr (g', k') \<and> maze_inv n m g' \<and> opens (fst s) \<subseteq> opens g' \<and>
               unvisited n m g' \<subseteq> unvisited n m (fst s) \<and>
               snd s + c \<le> k' \<and> open_count g' + 2 * (snd s + c) = open_count (fst s) + 2 * k'))"

section \<open>Example grids\<close>

text \<open>
  The grids at which the theorems below are instantiated: a corridor before and after
  the only move of \<open>P\<close>; \<open>P\<close> beside \<open>O\<close>; \<open>P\<close> walled in; the open 5 by 5
  rectangle and its two candidates; a grid with the target sealed off and its two
  candidates; the maze of 6 rows and 6 columns whose start is the corner; and the maze
  of 5 rows and 5 columns carved when every choice falls on the first element.
\<close>

definition corridor :: grid where
  "corridor = [''####'', ''#P #'', ''####'']"

definition corridor_moved :: grid where
  "corridor_moved = [''####'', ''# P#'', ''####'']"

definition beside_target :: grid where
  "beside_target = [''####'', ''#PO#'', ''#  #'', ''####'']"

definition walled_in :: grid where
  "walled_in = [''#####'', ''##O##'', ''#####'', ''##P##'', ''#####'']"

definition open5 :: grid where
  "open5 = [''#####'', ''#P  #'', ''#   #'', ''#  O#'', ''#####'']"

definition open5_down :: grid where
  "open5_down = [''#####'', ''#   #'', ''#P  #'', ''#  O#'', ''#####'']"

definition open5_right :: grid where
  "open5_right = [''#####'', ''# P #'', ''#   #'', ''#  O#'', ''#####'']"

definition sealed :: grid where
  "sealed = [''###'', ''# #'', ''#P#'', ''# #'', ''###'', ''#O#'', ''###'']"

definition sealed_up :: grid where
  "sealed_up = [''###'', ''#P#'', ''# #'', ''# #'', ''###'', ''#O#'', ''###'']"

definition sealed_down :: grid where
  "sealed_down = [''###'', ''# #'', ''# #'', ''#P#'', ''###'', ''#O#'', ''###'']"

definition corner_maze :: grid where
  "corner_maze = [''######'', ''######'', ''######'', ''######'', ''######'', ''##### '']"

definition small_maze :: grid where
  "small_maze = [''#####'', ''# # #'', ''# # #'', ''#   #'', ''#####'']"

section \<open>The text round trip\<close>

lemma split_nl_not_Nil: "split_nl s \<noteq> []"
  by (induction s) (auto split: list.splits)

lemma split_nl_line: "newline \<notin> set l \<Longrightarrow> split_nl l = [l]"
  by (induction l) auto

lemma split_nl_append: "newline \<notin> set l \<Longrightarrow> split_nl (l @ newline # s) = l # split_nl s"
  by (induction l) auto

lemma split_join:
  "g \<noteq> [] \<Longrightarrow> \<forall>row \<in> set g. newline \<notin> set row \<Longrightarrow> split_nl (join_nl g) = g"
  by (induction g rule: join_nl.induct) (simp_all add: split_nl_line split_nl_append)

lemma strip_id:
  assumes "s \<noteq> []" "\<not> is_space (hd s)" "\<not> is_space (last s)"
  shows "strip s = s"
proof -
  from assms have "dropWhile is_space s = s"
    by (cases s) simp_all
  moreover from assms have "dropWhile is_space (rev s) = rev s"
    by (cases "rev s") (simp_all add: hd_rev)
  ultimately show ?thesis by (simp add: strip_def)
qed

lemma join_nl_hd: "g \<noteq> [] \<Longrightarrow> hd g \<noteq> [] \<Longrightarrow> hd (join_nl g) = hd (hd g) \<and> join_nl g \<noteq> []"
  by (induction g rule: join_nl.induct) simp_all

lemma join_nl_last:
  "g \<noteq> [] \<Longrightarrow> last g \<noteq> [] \<Longrightarrow> join_nl g \<noteq> [] \<and> last (join_nl g) = last (last g)"
  by (induction g rule: join_nl.induct) (auto split: if_splits)

lemma glyph_not_newline: "glyph c \<Longrightarrow> c \<noteq> newline"
  by (auto simp: glyph_def newline_def wall_def space_def)

lemma glyph_is_space: "glyph c \<Longrightarrow> is_space c \<longleftrightarrow> c = space"
  by (auto simp: glyph_def is_space_def wall_def space_def)

text \<open>
  Claim C7, as stated: for every well-formed grid \<open>g\<close>,
  \<open>parse_grid (grid_to_string g) = g\<close>. It fails: \<^verbatim>\<open>parse_grid\<close> strips the text
  first, so an open cell at the very start of the rendering is lost. The grid with rows
  \<^verbatim>\<open>" #"\<close> and \<^verbatim>\<open>"##"\<close> is well formed and parses back with a first row of one cell.
\<close>

theorem parse_render_roundtrip_counterexample:
  "well_formed ['' #'', ''##''] \<and> parse_grid (grid_to_string ['' #'', ''##'']) \<noteq> ['' #'', ''##'']"
  by (simp add: well_formed_def rectangular_def glyph_def wall_def space_def
      parse_grid_def grid_to_string_def strip_def is_space_def newline_def)

text \<open>
  Claim C7, amended: for every well-formed grid with at least one row and one column
  whose first cell (row 0, column 0) and last cell (last row, last column) are not open,
  parsing the rendering gives the grid back. Every grid with a wall border is of this kind.
\<close>

theorem parse_render_roundtrip:
  assumes wf: "well_formed g" and ne: "g \<noteq> []" "hd g \<noteq> []"
    and first: "hd (hd g) \<noteq> space" and lst: "last (last g) \<noteq> space"
  shows "parse_grid (grid_to_string g) = g"
proof -
  from wf have gl: "\<forall>row \<in> set g. \<forall>c \<in> set row. glyph c"
    and rect: "\<forall>row \<in> set g. length row = length (hd g)"
    by (simp_all add: well_formed_def rectangular_def)
  from ne rect have lne: "last g \<noteq> []"
    by (metis last_in_set length_0_conv)
  from ne gl have "glyph (hd (hd g))"
    by (metis hd_in_set)
  with first have a: "\<not> is_space (hd (hd g))" by (simp add: glyph_is_space)
  from ne lne gl have "glyph (last (last g))"
    by (metis last_in_set)
  with lst have b: "\<not> is_space (last (last g))" by (simp add: glyph_is_space)
  from ne a b lne have "strip (join_nl g) = join_nl g"
    by (intro strip_id) (simp_all add: join_nl_hd join_nl_last)
  moreover from gl have "\<forall>row \<in> set g. newline \<notin> set row"
    using glyph_not_newline by blast
  ultimately show ?thesis
    using ne by (simp add: parse_grid_def grid_to_string_def split_join)
qed

theorem parse_render_roundtrip_witness:
  "well_formed [''###'', ''#P#'', ''###''] \<and>
   parse_grid (grid_to_string [''###'', ''#P#'', ''###'']) = [''###'', ''#P#'', ''###'']"
proof -
  have wf: "well_formed [''###'', ''#P#'', ''###'']"
    by (simp add: well_formed_def rectangular_def glyph_def wall_def space_def)
  from parse_render_roundtrip [OF wf] wf show ?thesis
    by (simp add: space_def)
qed

section \<open>Facts about indexing, lookup and move enumeration\<close>

subsection \<open>Indexing inside the bounds\<close>

lemma py_get_in: "0 \<le> i \<Longrightarrow> i < int (length xs) \<Longrightarrow> py_get xs i = Inr (xs ! nat i)"
  by (simp add: py_get_def norm_index_def)

lemma py_get_InrD: "py_get xs i = Inr v \<Longrightarrow> 0 \<le> i \<Longrightarrow> i < int (length xs) \<and> v = xs ! nat i"
  by (auto simp: py_get_def norm_index_def split: if_splits)

lemma py_set_in: "0 \<le> i \<Longrightarrow> i < int (length xs) \<Longrightarrow> py_set xs i v = Inr (xs[nat i := v])"
  by (simp add: py_set_def norm_index_def)

lemma cell_at_in:
  "0 \<le> y \<Longrightarrow> y < int (length g) \<Longrightarrow> 0 \<le> x \<Longrightarrow> x < int (length (g ! nat y)) \<Longrightarrow>
     cell_at g x y = Inr (g ! nat y ! nat x)"
  by (simp add: cell_at_def py_get_in)

lemma cell_at_InrD:
  "cell_at g x y = Inr c \<Longrightarrow> 0 \<le> x \<Longrightarrow> 0 \<le> y \<Longrightarrow>
     y < int (length g) \<and> x < int (length (g ! nat y)) \<and> c = g ! nat y ! nat x"
  by (auto simp: cell_at_def split: sum.splits dest!: py_get_InrD)

lemma set_cell_in:
  "0 \<le> y \<Longrightarrow> y < int (length g) \<Longrightarrow> 0 \<le> x \<Longrightarrow> x < int (length (g ! nat y)) \<Longrightarrow>
     set_cell g x y v = Inr (grid_upd g x y v)"
  by (simp add: set_cell_def py_get_in py_set_in grid_upd_def)

lemma length_grid_upd [simp]: "length (grid_upd g x y v) = length g"
  by (simp add: grid_upd_def)

lemma row_length_grid_upd [simp]: "length (grid_upd g x y v ! j) = length (g ! j)"
  by (cases "nat y < length g") (simp_all add: grid_upd_def nth_list_update list_update_beyond)

lemma nth_grid_upd:
  "j < length g \<Longrightarrow> i < length (g ! j) \<Longrightarrow>
     grid_upd g x y v ! j ! i = (if j = nat y \<and> i = nat x then v else g ! j ! i)"
  by (cases "j = nat y") (simp_all add: grid_upd_def nth_list_update)

lemma holds_grid_upd:
  assumes "0 \<le> x" "0 \<le> y"
  shows "holds (grid_upd g x y v) p c \<longleftrightarrow>
     (if p = (x, y) then holds g p (g ! nat y ! nat x) \<and> c = v else holds g p c)"
proof -
  obtain i j where p: "p = (i, j)" by (cases p)
  show ?thesis
  proof (cases "0 \<le> j \<and> j < int (length g) \<and> 0 \<le> i \<and> i < int (length (g ! nat j))")
    case False
    then show ?thesis unfolding p by (auto simp: holds_def)
  next
    case True
    then have "nat j < length g" "nat i < length (g ! nat j)" by auto
    from nth_grid_upd [OF this, of x y v] True assms show ?thesis
      unfolding p by (auto simp: holds_def)
  qed
qed

lemma finite_holds: "finite {p. holds g p c}"
proof -
  have "{p. holds g p c} \<subseteq> (\<Union>j \<in> {0..<int (length g)}. {0..<int (length (g ! nat j))} \<times> {j})"
    by (auto simp: holds_def)
  moreover have "finite (\<Union>j \<in> {0..<int (length g)}. {0..<int (length (g ! nat j))} \<times> {j})"
    by simp
  ultimately show ?thesis by (rule finite_subset)
qed

lemma norm_index_SomeD: "norm_index len i = Some j \<Longrightarrow> j < len \<and> (0 \<le> i \<longrightarrow> j = nat i)"
  by (auto simp: norm_index_def split: if_splits)

lemma set_cell_shape:
  assumes "set_cell g x y v = Inr g'"
  shows "\<exists>i j. j < length g \<and> i < length (g ! j) \<and> g' = grid_upd g (int i) (int j) v \<and>
               (0 \<le> x \<longrightarrow> i = nat x) \<and> (0 \<le> y \<longrightarrow> j = nat y)"
proof -
  from assms obtain j i where j: "norm_index (length g) y = Some j"
    and i: "norm_index (length (g ! j)) x = Some i"
    and g': "g' = g[j := (g ! j)[i := v]]"
    by (auto simp: set_cell_def py_get_def py_set_def split: option.splits sum.splits)
  from norm_index_SomeD [OF j] norm_index_SomeD [OF i] g' show ?thesis
    by (intro exI [of _ i] exI [of _ j]) (simp add: grid_upd_def)
qed

lemma rectangular_cell_at:
  "rectangular g \<Longrightarrow> in_bounds g p \<Longrightarrow> cell_at g (fst p) (snd p) = Inr (g ! nat (snd p) ! nat (fst p))"
proof -
  assume r: "rectangular g" and b: "in_bounds g p"
  from b have "nat (snd p) < length g" by (auto simp: in_bounds_def)
  then have "g ! nat (snd p) \<in> set g" by (rule nth_mem)
  with r have "length (g ! nat (snd p)) = length (hd g)" by (simp add: rectangular_def)
  with b show ?thesis by (simp add: in_bounds_def cell_at_in)
qed

subsection \<open>Locating a character\<close>

lemma index_of_less: "c \<in> set row \<Longrightarrow> index_of row c < length row \<and> row ! index_of row c = c"
  by (induction row) auto

lemma scan_rows_SomeD:
  "scan_rows y0 rows c = Some (x, y) \<Longrightarrow>
     y0 \<le> y \<and> y < y0 + int (length rows) \<and> 0 \<le> x \<and> x < int (length (rows ! nat (y - y0)))
     \<and> rows ! nat (y - y0) ! nat x = c"
proof (induction rows arbitrary: y0)
  case Nil
  then show ?case by simp
next
  case (Cons row rows)
  show ?case
  proof (cases "c \<in> set row")
    case True
    with Cons.prems index_of_less [OF True] show ?thesis by auto
  next
    case False
    with Cons.prems have "scan_rows (y0 + 1) rows c = Some (x, y)" by simp
    from Cons.IH [OF this]
    have ih: "y0 + 1 \<le> y" "y < y0 + 1 + int (length rows)" "0 \<le> x"
      "x < int (length (rows ! nat (y - (y0 + 1))))" "rows ! nat (y - (y0 + 1)) ! nat x = c"
      by simp_all
    from ih(1) have "nat (y - y0) = Suc (nat (y - (y0 + 1)))" by arith
    with ih show ?thesis by simp
  qed
qed

lemma get_character_coordinates_SomeD:
  assumes "get_character_coordinates g c = Some (x, y)"
  shows "0 \<le> y \<and> y < int (length g) \<and> 0 \<le> x \<and> x < int (length (g ! nat y)) \<and> g ! nat y ! nat x = c"
  using scan_rows_SomeD [of 0 g c x y] assms by (simp add: get_character_coordinates_def)

subsection \<open>The candidates\<close>

lemma valid_moves_sound:
  "valid_moves g ps = Inr vm \<Longrightarrow> p \<in> set vm \<Longrightarrow>
     p \<in> set ps \<and> 0 \<le> fst p \<and> 0 \<le> snd p \<and> cell_at g (fst p) (snd p) = Inr space"
proof (induction ps arbitrary: vm)
  case Nil
  then show ?case by simp
next
  case (Cons a ps)
  obtain nx ny where a: "a = (nx, ny)" by (cases a)
  from Cons.prems a show ?case
    by (auto split: if_splits sum.splits dest: Cons.IH)
qed

lemma valid_moves_rectangular:
  "rectangular g \<Longrightarrow> valid_moves g ps = Inr (filter (open_cell g) ps)"
proof (induction ps)
  case Nil
  then show ?case by simp
next
  case (Cons a ps)
  obtain nx ny where a: "a = (nx, ny)" by (cases a)
  show ?case
  proof (cases "in_bounds g a")
    case True
    then have g0: "py_get g 0 = Inr (hd g)"
      by (cases g) (auto simp: py_get_def norm_index_def in_bounds_def)
    from True Cons a g0 rectangular_cell_at [OF Cons.prems True] show ?thesis
      by (simp add: in_bounds_def open_cell_def)
  next
    case False
    have "py_get g 0 = Inr (hd g)" if "0 \<le> ny" "ny < int (length g)"
      using that by (cases g) (auto simp: py_get_def norm_index_def)
    with False Cons a show ?thesis
      by (auto simp: in_bounds_def open_cell_def)
  qed
qed

lemma new_grids_member:
  "new_grids g c x y ps = Inr gs \<Longrightarrow> g' \<in> set gs \<Longrightarrow> \<exists>p \<in> set ps. move_to g c x y p = Inr g'"
  by (induction ps arbitrary: gs) (auto split: sum.splits)

lemma new_grids_map:
  "\<forall>p \<in> set ps. move_to g c x y p = Inr (f p) \<Longrightarrow> new_grids g c x y ps = Inr (map f ps)"
  by (induction ps) auto

lemma move_to_in:
  assumes "0 \<le> y" "y < int (length g)" "0 \<le> x" "x < int (length (g ! nat y))"
    and "0 \<le> ny" "ny < int (length g)" "0 \<le> nx" "nx < int (length (g ! nat ny))"
  shows "move_to g c x y (nx, ny) = Inr (grid_upd (grid_upd g x y space) nx ny c)"
  using assms by (simp add: move_to_def set_cell_in)

section \<open>Moves leave the rest of the grid alone\<close>

text \<open>
  Every grid returned by \<^verbatim>\<open>generate_possible_moves\<close>, as a value, differs from the
  input at two cells only.
\<close>

lemma possible_moves_cells:
  assumes gen: "generate_possible_moves g c = Inr gs" and mem: "g' \<in> set gs"
  shows "\<exists>x y nx ny.
           get_character_coordinates g c = Some (x, y) \<and>
           (nx, ny) \<in> set (possible_moves x y) \<and> 0 \<le> nx \<and> 0 \<le> ny \<and>
           cell_at g nx ny = Inr space \<and>
           length g' = length g \<and>
           (\<forall>j < length g. length (g' ! j) = length (g ! j)) \<and>
           (\<forall>j < length g. \<forall>i < length (g ! j).
              g' ! j ! i = (if (int i, int j) = (nx, ny) then c
                            else if (int i, int j) = (x, y) then space else g ! j ! i))"
proof -
  from gen obtain x y vm where loc: "get_character_coordinates g c = Some (x, y)"
    and vm: "valid_moves g (possible_moves x y) = Inr vm"
    and ng: "new_grids g c x y vm = Inr gs"
    by (auto simp: generate_possible_moves_def split: option.splits sum.splits)
  from new_grids_member [OF ng mem] obtain p where p: "p \<in> set vm"
    and mv: "move_to g c x y p = Inr g'" by blast
  obtain nx ny where pxy: "p = (nx, ny)" by (cases p)
  from valid_moves_sound [OF vm p] pxy
  have adj: "(nx, ny) \<in> set (possible_moves x y)" and nn: "0 \<le> nx" "0 \<le> ny"
    and opn: "cell_at g nx ny = Inr space" by simp_all
  from cell_at_InrD [OF opn nn]
  have nb: "ny < int (length g)" "nx < int (length (g ! nat ny))" by simp_all
  from get_character_coordinates_SomeD [OF loc]
  have xb: "0 \<le> y" "y < int (length g)" "0 \<le> x" "x < int (length (g ! nat y))" by simp_all
  from mv pxy move_to_in [OF xb nn(2) nb(1) nn(1) nb(2)]
  have g': "g' = grid_upd (grid_upd g x y space) nx ny c" by simp
  have cellv: "g' ! j ! i = (if (int i, int j) = (nx, ny) then c
                            else if (int i, int j) = (x, y) then space else g ! j ! i)"
    if "j < length g" "i < length (g ! j)" for i j
  proof -
    have a: "(int i, int j) = (nx, ny) \<longleftrightarrow> j = nat ny \<and> i = nat nx"
      using nn by auto
    have b: "(int i, int j) = (x, y) \<longleftrightarrow> j = nat y \<and> i = nat x"
      using xb by auto
    from that have inner: "grid_upd g x y space ! j ! i
        = (if j = nat y \<and> i = nat x then space else g ! j ! i)"
      by (rule nth_grid_upd)
    from that have outer: "g' ! j ! i
        = (if j = nat ny \<and> i = nat nx then c else grid_upd g x y space ! j ! i)"
      unfolding g' by (intro nth_grid_upd) simp_all
    show ?thesis
      unfolding a b outer inner by (rule refl)
  qed
  have dims: "length g' = length g" "\<forall>j < length g. length (g' ! j) = length (g ! j)"
    by (simp_all add: g')
  from cellv have cellv': "\<forall>j < length g. \<forall>i < length (g ! j).
      g' ! j ! i = (if (int i, int j) = (nx, ny) then c
                    else if (int i, int j) = (x, y) then space else g ! j ! i)"
    by blast
  from loc adj nn opn dims cellv' show ?thesis
    by blast
qed

subsection \<open>The call on row objects\<close>

lemma deref_copy_grid:
  assumes "\<forall>a \<in> set r. a < length h" and "copy_grid h r = (h1, r1)"
  shows "deref h1 r1 = deref h r" and "distinct r1" and "\<forall>a \<in> set r1. length h \<le> a \<and> a < length h1"
    and "\<forall>a < length h. h1 ! a = h ! a" and "length h \<le> length h1"
proof -
  from assms(2) have h1: "h1 = h @ map (\<lambda>a. h ! a) r" and r1: "r1 = [length h..<length h + length r]"
    by (simp_all add: copy_grid_def)
  show "deref h1 r1 = deref h r"
    unfolding deref_def h1 r1 by (rule nth_equalityI) (simp_all add: nth_append)
  show "distinct r1" unfolding r1 by simp
  show "\<forall>a \<in> set r1. length h \<le> a \<and> a < length h1" unfolding r1 h1 by simp
  show "\<forall>a < length h. h1 ! a = h ! a" unfolding h1 by (simp add: nth_append)
  show "length h \<le> length h1" unfolding h1 by simp
qed

lemma deref_update:
  assumes "distinct r" "j < length r"
  shows "deref (h[r ! j := row]) r = (deref h r)[j := h[r ! j := row] ! (r ! j)]"
proof (rule nth_equalityI)
  show "length (deref (h[r ! j := row]) r) = length ((deref h r)[j := h[r ! j := row] ! (r ! j)])"
    by (simp add: deref_def)
next
  fix i assume "i < length (deref (h[r ! j := row]) r)"
  then have i: "i < length r" by (simp add: deref_def)
  show "deref (h[r ! j := row]) r ! i = (deref h r)[j := h[r ! j := row] ! (r ! j)] ! i"
  proof (cases "i = j")
    case True
    with i show ?thesis by (simp add: deref_def)
  next
    case False
    with assms i have "r ! i \<noteq> r ! j" by (simp add: nth_eq_iff_index_eq)
    with False i show ?thesis by (simp add: deref_def)
  qed
qed

lemma store_cell_refines:
  assumes d: "distinct r" and wf: "\<forall>a \<in> set r. a < length h"
    and s: "store_cell h r x y v = Inr h'"
  shows "set_cell (deref h r) x y v = Inr (deref h' r)"
    and "\<forall>b. b \<notin> set r \<longrightarrow> h' ! b = h ! b" and "length h' = length h"
proof -
  from s obtain j i where j: "norm_index (length r) y = Some j"
    and i: "norm_index (length (h ! (r ! j))) x = Some i"
    and h': "h' = h[r ! j := (h ! (r ! j))[i := v]]"
    by (auto simp: store_cell_def py_get_def py_set_def split: option.splits)
  from norm_index_SomeD [OF j] have jl: "j < length r" by simp
  then have rj: "r ! j \<in> set r" by (rule nth_mem)
  with wf have al: "r ! j < length h" by blast
  from jl have dj: "deref h r ! j = h ! (r ! j)" by (simp add: deref_def)
  from deref_update [OF d jl, of h "(h ! (r ! j))[i := v]"] al
  have "deref h' r = (deref h r)[j := (h ! (r ! j))[i := v]]"
    unfolding h' by simp
  with j i dj show "set_cell (deref h r) x y v = Inr (deref h' r)"
    by (simp add: set_cell_def py_get_def py_set_def deref_def)
  show "\<forall>b. b \<notin> set r \<longrightarrow> h' ! b = h ! b"
  proof (intro allI impI)
    fix b assume "b \<notin> set r"
    with rj have "r ! j \<noteq> b" by blast
    then show "h' ! b = h ! b" unfolding h' by (rule nth_list_update_neq)
  qed
  show "length h' = length h" unfolding h' by simp
qed

lemma new_grids_store_refines:
  "\<forall>a \<in> set r. a < length h \<Longrightarrow> new_grids_store h r c x y ps = Inr (h', rs) \<Longrightarrow>
     new_grids (deref h r) c x y ps = Inr (map (deref h') rs) \<and>
     (\<forall>a < length h. h' ! a = h ! a) \<and> length h \<le> length h'"
proof (induction ps arbitrary: h h' rs)
  case Nil
  then show ?case by simp
next
  case (Cons p ps)
  obtain h1 r1 where cp: "copy_grid h r = (h1, r1)" by (cases "copy_grid h r")
  note c = deref_copy_grid [OF Cons.prems(1) cp]
  from Cons.prems(2) cp obtain h2 h3 h4 rs' where
    s2: "store_cell h1 r1 x y space = Inr h2"
    and s3: "store_cell h2 r1 (fst p) (snd p) c = Inr h3"
    and rec: "new_grids_store h3 r c x y ps = Inr (h4, rs')"
    and h': "h' = h4" and rs: "rs = r1 # rs'"
    by (auto split: sum.splits prod.splits)
  from c(3) have wf1: "\<forall>a \<in> set r1. a < length h1" by blast
  note a = store_cell_refines [OF c(2) wf1 s2]
  from wf1 a(3) have wf2: "\<forall>a \<in> set r1. a < length h2" by simp
  note b = store_cell_refines [OF c(2) wf2 s3]
  have old: "h3 ! k = h ! k" if "k < length h" for k
  proof -
    from that c(3) have "k \<notin> set r1" by auto
    with a(2) b(2) c(4) that show ?thesis by simp
  qed
  have len3: "length h \<le> length h3" using c(5) a(3) b(3) by simp
  from Cons.prems(1) len3 have wf3: "\<forall>a \<in> set r. a < length h3" by auto
  from Cons.IH [OF wf3 rec]
  have ih: "new_grids (deref h3 r) c x y ps = Inr (map (deref h4) rs')"
    "\<forall>a < length h3. h4 ! a = h3 ! a" "length h3 \<le> length h4"
    by simp_all
  have same: "deref h3 r = deref h r"
    unfolding deref_def using Cons.prems(1) old by simp
  have mv: "move_to (deref h r) c x y p = Inr (deref h3 r1)"
    using a(1) b(1) c(1) by (simp add: move_to_def)
  have keep: "deref h4 r1 = deref h3 r1"
    unfolding deref_def using ih(2) wf1 a(3) b(3) by simp
  have "new_grids (deref h r) c x y (p # ps) = Inr (map (deref h') rs)"
    using mv ih(1) same keep h' rs by simp
  moreover have "\<forall>a < length h. h' ! a = h ! a"
    using old ih(2) len3 h' by simp
  moreover have "length h \<le> length h'" using len3 ih(3) h' by simp
  ultimately show ?case by blast
qed

lemma generate_possible_moves_store_refines:
  assumes "\<forall>a \<in> set r. a < length h" and "generate_possible_moves_store h r c = Inr (h', rs)"
  shows "generate_possible_moves (deref h r) c = Inr (map (deref h') rs)"
    and "\<forall>a < length h. h' ! a = h ! a" and "deref h' r = deref h r"
proof -
  from assms(2) obtain x y vm where loc: "get_character_coordinates (deref h r) c = Some (x, y)"
    and vm: "valid_moves (deref h r) (possible_moves x y) = Inr vm"
    and ng: "new_grids_store h r c x y vm = Inr (h', rs)"
    by (auto simp: generate_possible_moves_store_def split: option.splits sum.splits)
  note n = new_grids_store_refines [OF assms(1) ng]
  from n loc vm show "generate_possible_moves (deref h r) c = Inr (map (deref h') rs)"
    by (simp add: generate_possible_moves_def)
  from n show old: "\<forall>a < length h. h' ! a = h ! a" by simp
  with assms(1) show "deref h' r = deref h r" by (simp add: deref_def)
qed

text \<open>
  Claim C9: \<^verbatim>\<open>generate_possible_moves\<close>, run on a grid object \<open>r\<close> in a store \<open>h\<close>,
  returns grid objects in a store \<open>h'\<close>. Every row that existed before the call is
  unchanged in \<open>h'\<close>, so the input grid is not modified. Every returned grid \<open>r'\<close> has
  the dimensions of the input and equals it cell by cell, except that the cell
  \<open>(x, y)\<close> where \<open>c\<close> was located holds a space and exactly one cell \<open>(nx, ny)\<close>,
  adjacent to \<open>(x, y)\<close> and open in the input, holds \<open>c\<close>.
\<close>

theorem generate_possible_moves_frame:
  assumes wf: "\<forall>a \<in> set r. a < length h"
    and gen: "generate_possible_moves_store h r c = Inr (h', rs)"
    and mem: "r' \<in> set rs"
  shows "deref h' r = deref h r \<and> (\<forall>a < length h. h' ! a = h ! a) \<and>
     (\<exists>x y nx ny.
        get_character_coordinates (deref h r) c = Some (x, y) \<and>
        (nx, ny) \<in> set (possible_moves x y) \<and> 0 \<le> nx \<and> 0 \<le> ny \<and>
        cell_at (deref h r) nx ny = Inr space \<and>
        length (deref h' r') = length (deref h r) \<and>
        (\<forall>j < length (deref h r). length (deref h' r' ! j) = length (deref h r ! j)) \<and>
        (\<forall>j < length (deref h r). \<forall>i < length (deref h r ! j).
           deref h' r' ! j ! i = (if (int i, int j) = (nx, ny) then c
                                 else if (int i, int j) = (x, y) then space
                                 else deref h r ! j ! i)))"
proof -
  note ref = generate_possible_moves_store_refines [OF wf gen]
  from mem have "deref h' r' \<in> set (map (deref h') rs)" by simp
  from possible_moves_cells [OF ref(1) this] ref(2,3) show ?thesis by blast
qed

theorem generate_possible_moves_frame_witness:
  "list_all (\<lambda>a. a < length corridor) [0, 1, 2] \<and>
   generate_possible_moves_store corridor [0, 1, 2] (CHR ''P'')
     = Inr (corridor @ corridor_moved, [[3, 4, 5]]) \<and>
   deref (corridor @ corridor_moved) [0, 1, 2] = deref corridor [0, 1, 2] \<and>
   deref (corridor @ corridor_moved) [3, 4, 5] = corridor_moved \<and>
   (\<exists>x y nx ny.
      get_character_coordinates (deref corridor [0, 1, 2]) (CHR ''P'') = Some (x, y) \<and>
      (nx, ny) \<in> set (possible_moves x y) \<and>
      cell_at (deref corridor [0, 1, 2]) nx ny = Inr space \<and>
      length (deref (corridor @ corridor_moved) [3, 4, 5]) = length (deref corridor [0, 1, 2]))"
proof -
  have wf: "\<forall>a \<in> set [0, 1, 2]. a < length corridor" by (simp add: corridor_def)
  have gen: "generate_possible_moves_store corridor [0, 1, 2] (CHR ''P'')
     = Inr (corridor @ corridor_moved, [[3, 4, 5]])"
    by code_simp
  have mem: "[3, 4, 5] \<in> set [[3, 4, 5 :: nat]]" by simp
  have d: "deref (corridor @ corridor_moved) [3, 4, 5] = corridor_moved"
    by (simp add: deref_def corridor_def corridor_moved_def)
  from generate_possible_moves_frame [OF wf gen mem] wf gen d show ?thesis
    unfolding list_all_iff by blast
qed

section \<open>The target's cell is not a candidate\<close>

text \<open>
  Claim C8, as stated: when the mover is 4-adjacent to the target's cell, that cell is
  among the legal candidates enumerated for the mover. It fails: with \<open>P\<close> at \<open>(1, 1)\<close>
  and \<open>O\<close> at \<open>(2, 1)\<close>, the only candidate is \<open>(1, 2)\<close>.
\<close>

theorem target_cell_candidate_counterexample:
  "get_character_coordinates beside_target (CHR ''P'') = Some (1, 1) \<and>
   get_character_coordinates beside_target (CHR ''O'') = Some (2, 1) \<and>
   (2, 1) \<in> set (possible_moves 1 1) \<and>
   valid_moves beside_target (possible_moves 1 1) = Inr [(1, 2)] \<and>
   (2, 1) \<notin> set [(1, 2) :: pos]"
  by (simp add: beside_target_def get_character_coordinates_def possible_moves_def
      py_get_def cell_at_def norm_index_def space_def)

text \<open>
  Claim C8, amended: an in-bounds position occupied by an agent never counts as open in
  move enumeration, the pursuit target included. On a rectangular grid the candidates
  are exactly the neighbours, in the order up, down, left, right, that lie inside the
  bounds and hold a space; when the mover is 4-adjacent to the cell of a target whose
  tag is not the space, that cell is not among them.
\<close>

theorem target_cell_not_candidate:
  assumes rect: "rectangular g"
    and mover: "get_character_coordinates g char1 = Some (x, y)"
    and target: "get_character_coordinates g char2 = Some t"
    and tag: "char2 \<noteq> space"
    and adj: "t \<in> set (possible_moves x y)"
  shows "valid_moves g (possible_moves x y) = Inr (filter (open_cell g) (possible_moves x y)) \<and>
         t \<notin> set (filter (open_cell g) (possible_moves x y))"
proof -
  obtain tx ty where t: "t = (tx, ty)" by (cases t)
  from get_character_coordinates_SomeD [of g char2 tx ty] target t tag
  have "g ! nat ty ! nat tx \<noteq> space" by simp
  with t have "\<not> open_cell g t" by (simp add: open_cell_def)
  with valid_moves_rectangular [OF rect] show ?thesis by simp
qed

theorem target_cell_not_candidate_witness:
  "rectangular beside_target \<and>
   get_character_coordinates beside_target (CHR ''P'') = Some (1, 1) \<and>
   get_character_coordinates beside_target (CHR ''O'') = Some (2, 1) \<and>
   CHR ''O'' \<noteq> space \<and> (2, 1) \<in> set (possible_moves 1 1) \<and>
   valid_moves beside_target (possible_moves 1 1)
     = Inr (filter (open_cell beside_target) (possible_moves 1 1)) \<and>
   (2, 1) \<notin> set (filter (open_cell beside_target) (possible_moves 1 1))"
proof -
  have r: "rectangular beside_target"
    by (simp add: rectangular_def beside_target_def)
  have m: "get_character_coordinates beside_target (CHR ''P'') = Some (1, 1)"
    by (simp add: beside_target_def get_character_coordinates_def)
  have t: "get_character_coordinates beside_target (CHR ''O'') = Some (2, 1)"
    by (simp add: beside_target_def get_character_coordinates_def)
  have c: "CHR ''O'' \<noteq> space" by (simp add: space_def)
  have a: "(2, 1) \<in> set (possible_moves 1 1)" by (simp add: possible_moves_def)
  from target_cell_not_candidate [OF r m t c a] r m t c a show ?thesis by simp
qed

section \<open>No legal move\<close>

text \<open>
  Claim C5: when none of the mover's four neighbours is open (each is a wall, occupied
  or out of bounds), \<^verbatim>\<open>make_move\<close> and \<^verbatim>\<open>make_smart_move\<close> fail with an error
  that reaches the caller and return no grid; in particular they do not return the
  input. The error is the ValueError that \<^verbatim>\<open>min\<close> raises on the exhausted
  \<^verbatim>\<open>map\<close> object.
\<close>

theorem no_legal_move_fails:
  assumes rect: "rectangular (parse_grid grid_string)"
    and mover: "get_character_coordinates (parse_grid grid_string) char1 = Some (x, y)"
    and blocked: "\<forall>p \<in> set (possible_moves x y). \<not> open_cell (parse_grid grid_string) p"
  shows "make_move grid_string char1 char2 = Inl ValueError \<and>
         make_smart_move grid_string char1 char2 = Inl ValueError \<and>
         make_move grid_string char1 char2 \<noteq> Inr grid_string \<and>
         make_smart_move grid_string char1 char2 \<noteq> Inr grid_string"
proof -
  from blocked have "filter (open_cell (parse_grid grid_string)) (possible_moves x y) = []"
    by (simp add: filter_empty_conv)
  with valid_moves_rectangular [OF rect, of "possible_moves x y"]
  have "valid_moves (parse_grid grid_string) (possible_moves x y) = Inr []" by simp
  with mover have "generate_possible_moves (parse_grid grid_string) char1 = Inr []"
    by (simp add: generate_possible_moves_def)
  then show ?thesis
    by (simp add: make_move_def make_smart_move_def calculate_distances_def
        calculate_path_distances_def find_best_move_def render_best_def)
qed

theorem no_legal_move_fails_witness:
  "rectangular (parse_grid (grid_to_string walled_in)) \<and>
   get_character_coordinates (parse_grid (grid_to_string walled_in)) (CHR ''P'') = Some (2, 3) \<and>
   list_all (\<lambda>p. \<not> open_cell (parse_grid (grid_to_string walled_in)) p) (possible_moves 2 3) \<and>
   make_move (grid_to_string walled_in) (CHR ''P'') (CHR ''O'') = Inl ValueError \<and>
   make_smart_move (grid_to_string walled_in) (CHR ''P'') (CHR ''O'') = Inl ValueError"
proof -
  have p: "parse_grid (grid_to_string walled_in) = walled_in"
    by (simp add: walled_in_def parse_grid_def grid_to_string_def strip_def is_space_def newline_def)
  have r: "rectangular (parse_grid (grid_to_string walled_in))"
    unfolding p by (simp add: rectangular_def walled_in_def)
  have m: "get_character_coordinates (parse_grid (grid_to_string walled_in)) (CHR ''P'') = Some (2, 3)"
    unfolding p by (simp add: walled_in_def get_character_coordinates_def)
  have b: "\<forall>p \<in> set (possible_moves 2 3). \<not> open_cell (parse_grid (grid_to_string walled_in)) p"
    unfolding p by (simp add: possible_moves_def open_cell_def in_bounds_def walled_in_def space_def)
  from no_legal_move_fails [OF r m b] r m b show ?thesis
    by (simp add: list_all_iff)
qed

section \<open>The open 5 by 5 rectangle\<close>

text \<open>
  Claim C6, as stated: on the 5 by 5 grid with a wall border and an open interior,
  \<open>P\<close> at \<open>(1, 1)\<close> and \<open>O\<close> at \<open>(3, 3)\<close>, \<^verbatim>\<open>make_move\<close> breaks the tie in favour
  of \<open>(2, 1)\<close>. It fails: the result is not the grid with \<open>P\<close> at \<open>(2, 1)\<close>.
\<close>

theorem open5_tie_break_counterexample:
  "get_character_coordinates open5 (CHR ''P'') = Some (1, 1) \<and>
   get_character_coordinates open5 (CHR ''O'') = Some (3, 3) \<and>
   get_character_coordinates open5_right (CHR ''P'') = Some (2, 1) \<and>
   make_move (grid_to_string open5) (CHR ''P'') (CHR ''O'') \<noteq> Inr (grid_to_string open5_right)"
  by code_simp

text \<open>
  Claim C6, amended: on that grid the candidates are, in enumeration order, \<open>(1, 2)\<close>
  (down) and \<open>(2, 1)\<close> (right); both score 3; \<^verbatim>\<open>make_move\<close> moves \<open>P\<close> to
  \<open>(1, 2)\<close>, the first of the two.
\<close>

theorem open5_tie_break:
  "generate_possible_moves (parse_grid (grid_to_string open5)) (CHR ''P'') = Inr [open5_down, open5_right] \<and>
   calculate_distance open5_down (CHR ''P'') (CHR ''O'') = Inr 3 \<and>
   calculate_distance open5_right (CHR ''P'') (CHR ''O'') = Inr 3 \<and>
   get_character_coordinates open5_down (CHR ''P'') = Some (1, 2) \<and>
   make_move (grid_to_string open5) (CHR ''P'') (CHR ''O'') = Inr (grid_to_string open5_down)"
  by code_simp

section \<open>Paths on the grid\<close>

lemma adjacent_sym: "adjacent p q \<longleftrightarrow> adjacent q p"
  by (auto simp: adjacent_def)

lemma adjacent_directions:
  "set (map (\<lambda>(dx, dy). (x + dx, y + dy)) bfs_directions) = {q. adjacent (x, y) q}"
  by (auto simp: bfs_directions_def adjacent_def)

lemma reach_0: "reach g t s 0 p \<longleftrightarrow> p = s"
  by (auto intro: reach_start elim: reach.cases)

lemma reach_Suc:
  "reach g t s (Suc k) q \<longleftrightarrow> (\<exists>p. reach g t s k p \<and> adjacent p q \<and> passable g t q)"
proof
  assume "reach g t s (Suc k) q"
  then show "\<exists>p. reach g t s k p \<and> adjacent p q \<and> passable g t q"
    by (cases rule: reach.cases) blast
next
  assume "\<exists>p. reach g t s k p \<and> adjacent p q \<and> passable g t q"
  then show "reach g t s (Suc k) q"
    by (blast intro: reach_step)
qed

subsection \<open>The inner loop\<close>

lemma py_get_row0: "0 \<le> y \<Longrightarrow> y < int (length g) \<Longrightarrow> py_get g 0 = Inr (hd g)"
  by (cases g) (auto simp: py_get_def norm_index_def)

lemma explore_step:
  assumes "rectangular g"
  shows "explore g t x y d ((dx, dy) # ds) (q, V) =
     (if passable g t (x + dx, y + dy) \<and> (x + dx, y + dy) \<notin> V
      then explore g t x y d ds (q @ [((x + dx, y + dy), d + 1)], insert (x + dx, y + dy) V)
      else explore g t x y d ds (q, V))"
proof (cases "in_bounds g (x + dx, y + dy)")
  case True
  from rectangular_cell_at [OF assms True]
  have c: "cell_at g (x + dx) (y + dy) = Inr (g ! nat (y + dy) ! nat (x + dx))" by simp
  from True have "py_get g 0 = Inr (hd g)"
    by (intro py_get_row0 [of "y + dy"]) (simp_all add: in_bounds_def)
  with True c show ?thesis
    by (auto simp: Let_def passable_def in_bounds_def)
next
  case False
  have "py_get g 0 = Inr (hd g)" if "0 \<le> y + dy" "y + dy < int (length g)"
    using that by (rule py_get_row0)
  with False show ?thesis
    by (auto simp: Let_def passable_def in_bounds_def)
qed

lemma explore_spec:
  assumes "rectangular g"
  shows "\<exists>new. explore g t x y d ds (q, V) = Inr (q @ map (\<lambda>p. (p, d + 1)) new, V \<union> set new) \<and>
           distinct new \<and>
           set new = {n \<in> set (map (\<lambda>(dx, dy). (x + dx, y + dy)) ds). passable g t n \<and> n \<notin> V}"
proof (induction ds arbitrary: q V)
  case Nil
  show ?case by (intro exI [of _ "[]"]) simp
next
  case (Cons a ds)
  obtain dx dy where a: "a = (dx, dy)" by (cases a)
  let ?n = "(x + dx, y + dy)"
  show ?case
  proof (cases "passable g t ?n \<and> ?n \<notin> V")
    case True
    from Cons.IH [of "q @ [(?n, d + 1)]" "insert ?n V"]
    obtain new where ex: "explore g t x y d ds (q @ [(?n, d + 1)], insert ?n V)
        = Inr ((q @ [(?n, d + 1)]) @ map (\<lambda>p. (p, d + 1)) new, insert ?n V \<union> set new)"
      and dn: "distinct new"
      and sn: "set new = {n \<in> set (map (\<lambda>(dx, dy). (x + dx, y + dy)) ds).
                 passable g t n \<and> n \<notin> insert ?n V}"
      by blast
    from sn have notin: "?n \<notin> set new" by blast
    show ?thesis
    proof (intro exI [of _ "?n # new"] conjI)
      from True ex show "explore g t x y d (a # ds) (q, V)
          = Inr (q @ map (\<lambda>p. (p, d + 1)) (?n # new), V \<union> set (?n # new))"
        unfolding a explore_step [OF assms] by simp
      from dn notin show "distinct (?n # new)" by simp
      from True sn show "set (?n # new)
          = {n \<in> set (map (\<lambda>(dx, dy). (x + dx, y + dy)) (a # ds)). passable g t n \<and> n \<notin> V}"
        unfolding a by auto
    qed
  next
    case False
    from Cons.IH [of q V]
    obtain new where ex: "explore g t x y d ds (q, V)
        = Inr (q @ map (\<lambda>p. (p, d + 1)) new, V \<union> set new)"
      and dn: "distinct new"
      and sn: "set new = {n \<in> set (map (\<lambda>(dx, dy). (x + dx, y + dy)) ds). passable g t n \<and> n \<notin> V}"
      by blast
    show ?thesis
    proof (intro exI [of _ new] conjI)
      have "explore g t x y d (a # ds) (q, V) = explore g t x y d ds (q, V)"
        unfolding a explore_step [OF assms] by (rule if_not_P) (rule False)
      with ex show "explore g t x y d (a # ds) (q, V)
          = Inr (q @ map (\<lambda>p. (p, d + 1)) new, V \<union> set new)"
        by simp
      show "distinct new" by (rule dn)
      from False sn show "set new
          = {n \<in> set (map (\<lambda>(dx, dy). (x + dx, y + dy)) (a # ds)). passable g t n \<and> n \<notin> V}"
        unfolding a by auto
    qed
  qed
qed

lemma explore_bfs:
  assumes "rectangular g"
  obtains new where
    "explore g t x y d bfs_directions (q, V) = Inr (q @ map (\<lambda>p. (p, d + 1)) new, V \<union> set new)"
    "distinct new" "set new = {n. adjacent (x, y) n \<and> passable g t n \<and> n \<notin> V}"
proof -
  from explore_spec [OF assms, of t x y d bfs_directions q V]
  obtain new where
    "explore g t x y d bfs_directions (q, V) = Inr (q @ map (\<lambda>p. (p, d + 1)) new, V \<union> set new)"
    "distinct new"
    "set new = {n \<in> set (map (\<lambda>(dx, dy). (x + dx, y + dy)) bfs_directions). passable g t n \<and> n \<notin> V}"
    by blast
  then show ?thesis
    using that [of new] unfolding adjacent_directions by simp
qed

subsection \<open>The invariant of the search\<close>

lemma bfs_inv_init: "bfs_inv g t s [(s, 0)] {s}"
  by (simp add: bfs_inv_def reach_0)

lemma sorted_hd_le: "sorted (map snd q) \<Longrightarrow> e \<in> set q \<Longrightarrow> snd (hd q) \<le> snd e"
  by (cases q) auto

lemma bfs_inv_step:
  assumes inv: "bfs_inv g t s (((x, y), d) # q) V" and nt: "(x, y) \<noteq> t"
    and dnew: "distinct new"
    and snew: "set new = {n. adjacent (x, y) n \<and> passable g t n \<and> n \<notin> V}"
  shows "bfs_inv g t s (q @ map (\<lambda>p. (p, d + 1)) new) (V \<union> set new)"
proof -
  let ?Q = "q @ map (\<lambda>p. (p, d + 1)) new"
  let ?V = "V \<union> set new"
  from inv have sV: "s \<in> V" and dq: "distinct (map fst q)" and xyq: "(x, y) \<notin> fst ` set q"
    and xyV: "(x, y) \<in> V" and sub: "fst ` set q \<subseteq> V"
    by (auto simp: bfs_inv_def)
  from inv have d0: "0 \<le> d" and rxy: "reach g t s (nat d) (x, y)"
    and entq: "\<forall>e \<in> set q. 0 \<le> snd e \<and> reach g t s (nat (snd e)) (fst e) \<and>
                     (\<forall>k < nat (snd e). \<not> reach g t s k (fst e))"
    by (auto simp: bfs_inv_def)
  from inv have srt: "sorted (map snd q)" and low: "\<forall>e \<in> set q. d \<le> snd e"
    and bnd: "\<forall>e \<in> set q. snd e \<le> d + 1"
    by (auto simp: bfs_inv_def)
  from inv have clo: "\<forall>p \<in> V - insert (x, y) (fst ` set q).
      p \<noteq> t \<and> (\<forall>n. adjacent p n \<and> passable g t n \<longrightarrow> n \<in> V)"
    by (simp add: bfs_inv_def)
  from inv have nearall: "\<forall>r k. ((x, y), d) # q \<noteq> [] \<and> reach g t s k r \<and>
      int k \<le> snd (hd (((x, y), d) # q)) \<longrightarrow> r \<in> V"
    unfolding bfs_inv_def by blast
  have near: "r \<in> V" if "reach g t s k r" "int k \<le> d" for r k
    using nearall [rule_format, where r = r and k = k] that by simp
  have fstQ: "map fst ?Q = map fst q @ new"
    by (simp add: comp_def)
  have sndQ: "map snd ?Q = map snd q @ map (\<lambda>_. d + 1) new"
    by (simp add: comp_def)
  have setQ: "fst ` set ?Q = fst ` set q \<union> set new"
    by (auto simp: image_Un image_image)
  have g1: "s \<in> ?V" using sV by simp
  have g2: "distinct (map fst ?Q)"
    unfolding fstQ using dq dnew sub snew by auto
  have g3: "fst ` set ?Q \<subseteq> ?V"
    unfolding setQ using sub by auto
  have entnew: "0 \<le> d + 1 \<and> reach g t s (nat (d + 1)) n \<and> (\<forall>k < nat (d + 1). \<not> reach g t s k n)"
    if "n \<in> set new" for n
  proof -
    from that snew have a: "adjacent (x, y) n" and p: "passable g t n" and nV: "n \<notin> V"
      by auto
    from d0 have nd: "nat (d + 1) = Suc (nat d)" by simp
    have "reach g t s (Suc (nat d)) n"
      using rxy a p by (rule reach_step)
    moreover have "\<not> reach g t s k n" if "k < Suc (nat d)" for k
    proof
      assume "reach g t s k n"
      moreover from that d0 have "int k \<le> d" by simp
      ultimately have "n \<in> V" by (rule near)
      with nV show False by simp
    qed
    ultimately show ?thesis using d0 nd by simp
  qed
  have g4: "\<forall>e \<in> set ?Q. 0 \<le> snd e \<and> reach g t s (nat (snd e)) (fst e) \<and>
                     (\<forall>k < nat (snd e). \<not> reach g t s k (fst e))"
    using entq entnew by auto
  have g5: "sorted (map snd ?Q)"
    unfolding sndQ using srt bnd by (auto simp: sorted_append sorted_map)
  have hdQ: "d \<le> snd (hd ?Q) \<and> snd (hd ?Q) \<le> d + 1" if "?Q \<noteq> []"
  proof (cases q)
    case Nil
    with that show ?thesis by (cases new) simp_all
  next
    case (Cons e q')
    with low bnd show ?thesis by simp
  qed
  have allQ: "\<forall>e \<in> set ?Q. snd e \<le> d + 1"
    using bnd by auto
  have g6: "\<forall>e \<in> set ?Q. snd e \<le> snd (hd ?Q) + 1"
  proof
    fix e assume e: "e \<in> set ?Q"
    then have "?Q \<noteq> []" by auto
    from hdQ [OF this] allQ e show "snd e \<le> snd (hd ?Q) + 1" by fastforce
  qed
  have g7: "\<forall>p \<in> ?V - fst ` set ?Q. p \<noteq> t \<and> (\<forall>n. adjacent p n \<and> passable g t n \<longrightarrow> n \<in> ?V)"
  proof
    fix p assume "p \<in> ?V - fst ` set ?Q"
    then have pV: "p \<in> V" and pq: "p \<notin> fst ` set q"
      unfolding setQ by auto
    show "p \<noteq> t \<and> (\<forall>n. adjacent p n \<and> passable g t n \<longrightarrow> n \<in> ?V)"
    proof (cases "p = (x, y)")
      case True
      with nt snew show ?thesis by auto
    next
      case False
      with pV pq have "p \<in> V - insert (x, y) (fst ` set q)" by simp
      with clo have "p \<noteq> t \<and> (\<forall>n. adjacent p n \<and> passable g t n \<longrightarrow> n \<in> V)"
        by (rule bspec)
      then show ?thesis by simp
    qed
  qed
  have g8: "\<forall>r k. ?Q \<noteq> [] \<and> reach g t s k r \<and> int k \<le> snd (hd ?Q) \<longrightarrow> r \<in> ?V"
  proof (intro allI impI)
    fix r k assume h: "?Q \<noteq> [] \<and> reach g t s k r \<and> int k \<le> snd (hd ?Q)"
    then have ne: "?Q \<noteq> []" and rk: "reach g t s k r" and kle: "int k \<le> snd (hd ?Q)"
      by simp_all
    show "r \<in> ?V"
    proof (cases "int k \<le> d")
      case True
      with rk have "r \<in> V" by (rule near)
      then show ?thesis by simp
    next
      case False
      with kle hdQ [OF ne] d0 have hd: "snd (hd ?Q) = d + 1" and k: "k = Suc (nat d)"
        by auto
      from rk k obtain u where ru: "reach g t s (nat d) u" and au: "adjacent u r"
        and pr: "passable g t r"
        by (auto simp: reach_Suc)
      from ru d0 have uV: "u \<in> V" by (intro near [of "nat d" u]) simp_all
      have "u \<notin> fst ` set ?Q"
      proof
        assume "u \<in> fst ` set ?Q"
        then obtain e where e: "e \<in> set ?Q" and fe: "fst e = u" by auto
        from sorted_hd_le [OF g5 e] hd have "d + 1 \<le> snd e" by simp
        with d0 have "nat d < nat (snd e)" by simp
        with g4 e fe have "\<not> reach g t s (nat d) u" by blast
        with ru show False by simp
      qed
      with uV have "u \<in> ?V - fst ` set ?Q" by simp
      with g7 have "u \<noteq> t \<and> (\<forall>n. adjacent u n \<and> passable g t n \<longrightarrow> n \<in> ?V)"
        by (rule bspec)
      with au pr show ?thesis by blast
    qed
  qed
  show ?thesis
    unfolding bfs_inv_def by (intro conjI g1 g2 g3 g4 g5 g6 g7 g8)
qed

lemma bfs_inv_empty:
  assumes inv: "bfs_inv g t s [] V"
  shows "\<not> reach g t s k t"
proof
  assume r: "reach g t s k t"
  from inv have sV: "s \<in> V"
    and clo: "\<forall>p \<in> V. p \<noteq> t \<and> (\<forall>n. adjacent p n \<and> passable g t n \<longrightarrow> n \<in> V)"
    by (simp_all add: bfs_inv_def)
  from r have "t \<in> V"
  proof (induction rule: reach.induct)
    case reach_start
    show ?case by (rule sV)
  next
    case (reach_step k p q)
    from clo reach_step.IH have "\<forall>n. adjacent p n \<and> passable g t n \<longrightarrow> n \<in> V"
      by blast
    with reach_step.hyps show ?case by blast
  qed
  with clo show False by blast
qed

lemma bfs_inv_found:
  assumes inv: "bfs_inv g t s ((t, d) # q) V"
  shows "reach g t s (nat d) t \<and> int (LEAST k. reach g t s k t) = d"
proof -
  from inv have d0: "0 \<le> d" and r: "reach g t s (nat d) t"
    and least: "\<forall>k < nat d. \<not> reach g t s k t"
    by (simp_all add: bfs_inv_def)
  have "(LEAST k. reach g t s k t) = nat d"
  proof (rule Least_equality)
    show "reach g t s (nat d) t" by (rule r)
  next
    fix k assume "reach g t s k t"
    with least show "nat d \<le> k" by (meson not_le)
  qed
  with d0 r show ?thesis by simp
qed

lemma bfs_loop_correct:
  "rectangular g \<Longrightarrow> bfs_inv g t s q V \<Longrightarrow>
     bfs_loop g t q V
       = Inr (if \<exists>k. reach g t s k t then int (LEAST k. reach g t s k t) else - 1)"
proof (induction g t q V rule: bfs_loop.induct)
  case (1 g target visited)
  from bfs_inv_empty [OF "1.prems"(2)] show ?case by simp
next
  case (2 g target x y path_length queue visited)
  show ?case
  proof (cases "(x, y) = target")
    case True
    with "2.prems"(2) have "bfs_inv g target s ((target, path_length) # queue) visited"
      by simp
    from bfs_inv_found [OF this] True show ?thesis by auto
  next
    case False
    obtain new where
      ex: "explore g target x y path_length bfs_directions (queue, visited)
             = Inr (queue @ map (\<lambda>p. (p, path_length + 1)) new, visited \<union> set new)"
      and dn: "distinct new"
      and sn: "set new = {n. adjacent (x, y) n \<and> passable g target n \<and> n \<notin> visited}"
      by (rule explore_bfs [OF "2.prems"(1)])
    from bfs_inv_step [OF "2.prems"(2) False dn sn]
    have inv': "bfs_inv g target s (queue @ map (\<lambda>p. (p, path_length + 1)) new) (visited \<union> set new)" .
    from "2.IH" [OF False ex refl "2.prems"(1) inv'] False ex show ?thesis
      by simp
  qed
qed

subsection \<open>Steps into passable cells and open paths\<close>

lemma walk_snoc: "walk (ps @ [q]) \<longleftrightarrow> walk ps \<and> (ps \<noteq> [] \<longrightarrow> adjacent (last ps) q)"
  by (induction ps rule: walk.induct) auto

lemma walk_prefix: "walk (ps @ qs) \<Longrightarrow> walk ps"
  by (induction ps rule: walk.induct) auto

lemma walk_rev: "walk (rev ps) \<longleftrightarrow> walk ps"
proof (induction ps rule: walk.induct)
  case (3 p q ps)
  have "walk (rev (p # q # ps)) \<longleftrightarrow> walk ((rev ps @ [q]) @ [p])" by simp
  also have "\<dots> \<longleftrightarrow> walk (rev ps @ [q]) \<and> adjacent q p"
    unfolding walk_snoc [of "rev ps @ [q]" p] by simp
  also have "\<dots> \<longleftrightarrow> walk (q # ps) \<and> adjacent p q"
    using 3 by (simp add: adjacent_sym [of p q])
  finally show ?case by auto
qed simp_all

lemma path_reach:
  "ps \<noteq> [] \<Longrightarrow> walk ps \<Longrightarrow> \<forall>p \<in> set (tl ps). passable g t p \<Longrightarrow>
     reach g t (hd ps) (length ps - 1) (last ps)"
proof (induction ps rule: rev_nonempty_induct)
  case (single p)
  show ?case by (simp add: reach_start)
next
  case (snoc q ps)
  from snoc.prems(1) snoc.hyps(1) have w: "walk ps" and a: "adjacent (last ps) q"
    by (simp_all add: walk_snoc)
  from snoc.prems(2) snoc.hyps(1) have pq: "passable g t q"
    and rest: "\<forall>p \<in> set (tl ps). passable g t p"
    by simp_all
  from snoc.IH [OF w rest] have "reach g t (hd ps) (length ps - 1) (last ps)" .
  from reach_step [OF this a pq] snoc.hyps(1) show ?case
    by simp
qed

lemma reach_path:
  "reach g t s k p \<Longrightarrow>
     \<exists>ps. length ps = Suc k \<and> hd ps = s \<and> last ps = p \<and> walk ps \<and>
          (\<forall>q \<in> set (tl ps). passable g t q)"
proof (induction rule: reach.induct)
  case reach_start
  show ?case by (intro exI [of _ "[s]"]) simp
next
  case (reach_step k p q)
  then obtain ps where ps: "length ps = Suc k" "hd ps = s" "last ps = p" "walk ps"
    "\<forall>q \<in> set (tl ps). passable g t q"
    by blast
  from ps(1) have ne: "ps \<noteq> []" by auto
  show ?case
  proof (intro exI [of _ "ps @ [q]"] conjI)
    show "length (ps @ [q]) = Suc (Suc k)" using ps(1) by simp
    show "hd (ps @ [q]) = s" using ne ps(2) by simp
    show "last (ps @ [q]) = q" by simp
    show "walk (ps @ [q])" using ps(3,4) reach_step.hyps(2) ne by (simp add: walk_snoc)
    show "\<forall>r \<in> set (tl (ps @ [q])). passable g t r"
      using ne ps(5) reach_step.hyps(3) by simp
  qed
qed

lemma cut_at_target:
  assumes ne: "ps \<noteq> []" and lst: "last ps = t" and w: "walk ps"
    and pass: "\<forall>q \<in> set (tl ps). passable g t q"
  shows "\<exists>ps'. open_path g (hd ps) t ps' \<and> length ps' \<le> length ps"
proof -
  let ?tw = "takeWhile (\<lambda>p. p \<noteq> t) ps"
  let ?dw = "dropWhile (\<lambda>p. p \<noteq> t) ps"
  from ne lst have tin: "t \<in> set ps" by (metis last_in_set)
  then have dne: "?dw \<noteq> []" by simp
  from hd_dropWhile [OF dne] have "hd ?dw = t" by simp
  with dne obtain rest where dw: "?dw = t # rest" by (cases ?dw) auto
  have split: "ps = (?tw @ [t]) @ rest"
    using takeWhile_dropWhile_id [of "\<lambda>p. p \<noteq> t" ps] dw by simp
  have w': "walk (?tw @ [t])"
    using w split walk_prefix [of "?tw @ [t]" rest] by simp
  have hd': "hd (?tw @ [t]) = hd ps"
    using split by (metis append_is_Nil_conv hd_append2 not_Cons_self2)
  have mid: "open_cell g p" if "p \<in> set (butlast (tl (?tw @ [t])))" for p
  proof -
    from that have ptw: "p \<in> set (tl ?tw)"
      by (cases ?tw) simp_all
    then have "p \<in> set ?tw" by (metis list.set_sel(2) tl_Nil)
    then have pt: "p \<noteq> t" by (metis (mono_tags, lifting) set_takeWhileD)
    from ptw have "p \<in> set (tl ps)"
      using split by (cases ?tw) auto
    with pass have "passable g t p" by blast
    with pt show ?thesis by (simp add: passable_def open_cell_def)
  qed
  have len: "length (?tw @ [t]) \<le> length ps"
    using split by (metis length_append le_add1)
  show ?thesis
  proof (intro exI [of _ "?tw @ [t]"] conjI)
    show "open_path g (hd ps) t (?tw @ [t])"
      unfolding open_path_def using w' hd' mid by simp
    show "length (?tw @ [t]) \<le> length ps" by (rule len)
  qed
qed

lemma open_path_reach:
  assumes "open_path g s t ps" and "in_bounds g t"
  shows "reach g t s (length ps - 1) t"
proof -
  from assms(1) have ne: "ps \<noteq> []" and h: "hd ps = s" and l: "last ps = t" and w: "walk ps"
    and mid: "\<forall>p \<in> set (butlast (tl ps)). open_cell g p"
    by (simp_all add: open_path_def)
  have "passable g t p" if "p \<in> set (tl ps)" for p
  proof (cases "p = t")
    case True
    with assms(2) show ?thesis by (simp add: passable_def)
  next
    case False
    from that have tne: "tl ps \<noteq> []" by auto
    then have "last (tl ps) = t" using l ne by (metis last_tl)
    with that False tne have "p \<in> set (butlast (tl ps))"
      by (metis append_butlast_last_id rotate1.simps(2) set_ConsD set_rotate1)
    with mid show ?thesis by (simp add: passable_def open_cell_def)
  qed
  then have "\<forall>p \<in> set (tl ps). passable g t p" by blast
  from path_reach [OF ne w this] h l show ?thesis by simp
qed

lemma reach_open_path:
  assumes "reach g t s k t"
  shows "\<exists>ps. open_path g s t ps \<and> length ps \<le> Suc k"
proof -
  from reach_path [OF assms] obtain ps where ps: "length ps = Suc k" "hd ps = s" "last ps = t"
    "walk ps" "\<forall>q \<in> set (tl ps). passable g t q"
    by blast
  from ps(1) have "ps \<noteq> []" by auto
  from cut_at_target [OF this ps(3,4,5)] ps(1,2) show ?thesis by auto
qed

lemma open_path_exists_iff:
  assumes "in_bounds g t"
  shows "(\<exists>ps. open_path g s t ps) \<longleftrightarrow> (\<exists>k. reach g t s k t)"
  using open_path_reach [OF _ assms] reach_open_path by blast

lemma open_path_least:
  assumes inb: "in_bounds g t" and ex: "reach g t s k t"
  shows "(LEAST n. \<exists>ps. open_path g s t ps \<and> length ps = Suc n) = (LEAST k. reach g t s k t)"
proof (rule Least_equality)
  let ?m = "LEAST k. reach g t s k t"
  have rm: "reach g t s ?m t" using ex by (rule LeastI)
  from reach_open_path [OF rm] obtain ps where ps: "open_path g s t ps" "length ps \<le> Suc ?m"
    by blast
  from ps(1) have ne: "ps \<noteq> []" by (simp add: open_path_def)
  from open_path_reach [OF ps(1) inb] have "?m \<le> length ps - 1" by (rule Least_le)
  with ps(2) ne have "length ps = Suc ?m" by (cases ps) simp_all
  with ps(1) show "\<exists>ps. open_path g s t ps \<and> length ps = Suc ?m" by blast
next
  fix n assume "\<exists>ps. open_path g s t ps \<and> length ps = Suc n"
  then obtain ps where ps: "open_path g s t ps" "length ps = Suc n" by blast
  from open_path_reach [OF ps(1) inb] ps(2) have "reach g t s n t" by simp
  then show "(LEAST k. reach g t s k t) \<le> n" by (rule Least_le)
qed

lemma located_in_bounds:
  assumes "rectangular g" and "get_character_coordinates g c = Some p"
  shows "in_bounds g p"
proof -
  obtain x y where p: "p = (x, y)" by (cases p)
  from get_character_coordinates_SomeD [of g c x y] assms(2) p
  have b: "0 \<le> y" "y < int (length g)" "0 \<le> x" "x < int (length (g ! nat y))" by simp_all
  from b(1,2) have "g ! nat y \<in> set g" by (intro nth_mem) auto
  with assms(1) have "length (g ! nat y) = length (hd g)" by (simp add: rectangular_def)
  with b p show ?thesis by (simp add: in_bounds_def)
qed

lemma calculate_path_distance_shortest:
  assumes rect: "rectangular g"
    and start: "get_character_coordinates g char1 = Some s"
    and target: "get_character_coordinates g char2 = Some t"
  shows "calculate_path_distance g char1 char2 = Inr (shortest_open_path g s t)"
proof -
  have inb: "in_bounds g t" using rect target by (rule located_in_bounds)
  have "calculate_path_distance g char1 char2 = bfs_loop g t [(s, 0)] {s}"
    using start target by (simp add: calculate_path_distance_def)
  also have "\<dots> = Inr (if \<exists>k. reach g t s k t then int (LEAST k. reach g t s k t) else - 1)"
    using rect bfs_inv_init by (rule bfs_loop_correct)
  also have "(if \<exists>k. reach g t s k t then int (LEAST k. reach g t s k t) else - 1)
      = shortest_open_path g s t"
  proof (cases "\<exists>k. reach g t s k t")
    case True
    then obtain k where k: "reach g t s k t" by blast
    from True open_path_exists_iff [OF inb, of s] open_path_least [OF inb k] show ?thesis
      by (simp add: shortest_open_path_def)
  next
    case False
    with open_path_exists_iff [OF inb, of s] show ?thesis
      by (simp add: shortest_open_path_def)
  qed
  finally show ?thesis .
qed

lemma open_path_rev: "open_path g t s (rev ps) \<longleftrightarrow> open_path g s t ps"
proof -
  have "set (butlast (tl (rev ps))) = set (butlast (tl ps))"
    by (cases ps rule: rev_cases) (simp_all add: butlast_tl rev_cases)
  then show ?thesis
    by (auto simp: open_path_def walk_rev hd_rev last_rev)
qed

lemma shortest_open_path_sym: "shortest_open_path g s t = shortest_open_path g t s"
proof -
  have a: "(\<exists>ps. open_path g s t ps \<and> length ps = n) \<longleftrightarrow> (\<exists>ps. open_path g t s ps \<and> length ps = n)"
    for n
    by (metis open_path_rev length_rev)
  have b: "(\<exists>ps. open_path g s t ps) \<longleftrightarrow> (\<exists>ps. open_path g t s ps)"
    by (metis open_path_rev)
  show ?thesis
    unfolding shortest_open_path_def a b ..
qed

section \<open>The path distance is the length of a shortest open path\<close>

text \<open>
  Claim C2: on a rectangular grid in which \<open>char1\<close> is located at \<open>s\<close> and \<open>char2\<close> at
  \<open>t\<close>, \<^verbatim>\<open>calculate_path_distance\<close> returns a number \<open>d\<close>. It is \<open>- 1\<close> exactly when
  there is no open path from \<open>s\<close> to \<open>t\<close> (a 4-directional path whose intermediate
  cells are in bounds and hold a space; the cell of \<open>t\<close> may hold anything). Otherwise
  some open path has \<open>d\<close> steps and none has fewer. And \<open>d\<close> is 0 exactly when
  \<open>s = t\<close>.
\<close>

theorem path_distance_is_shortest:
  assumes rect: "rectangular g"
    and start: "get_character_coordinates g char1 = Some s"
    and target: "get_character_coordinates g char2 = Some t"
  shows "\<exists>d. calculate_path_distance g char1 char2 = Inr d \<and>
           (d = - 1 \<longleftrightarrow> \<not> (\<exists>ps. open_path g s t ps)) \<and>
           (d \<noteq> - 1 \<longrightarrow> (\<exists>ps. open_path g s t ps \<and> int (length ps) - 1 = d) \<and>
                        (\<forall>ps. open_path g s t ps \<longrightarrow> d \<le> int (length ps) - 1)) \<and>
           (d = 0 \<longleftrightarrow> s = t)"
proof -
  let ?A = "\<lambda>n. \<exists>ps. open_path g s t ps \<and> length ps = Suc n"
  let ?d = "shortest_open_path g s t"
  have res: "calculate_path_distance g char1 char2 = Inr ?d"
    using assms by (rule calculate_path_distance_shortest)
  have self: "open_path g s s [s]" by (simp add: open_path_def)
  have one: "s = t" if "open_path g s t ps" "length ps = Suc 0" for ps
  proof -
    from that(2) obtain p where "ps = [p]" by (cases ps) auto
    with that(1) show ?thesis by (auto simp: open_path_def)
  qed
  show ?thesis
  proof (cases "\<exists>ps. open_path g s t ps")
    case False
    then have d: "?d = - 1" by (simp add: shortest_open_path_def)
    from False self have "s \<noteq> t" by blast
    with res d False show ?thesis by simp
  next
    case True
    then obtain qs where qs: "open_path g s t qs" by blast
    then have "qs \<noteq> []" by (simp add: open_path_def)
    with qs have "?A (length qs - 1)" by (intro exI [of _ qs]) simp
    then have least: "?A (Least ?A)" by (rule LeastI)
    from True have d: "?d = int (Least ?A)" by (simp add: shortest_open_path_def)
    from least obtain ps where ps: "open_path g s t ps" "length ps = Suc (Least ?A)" by blast
    have ex: "\<exists>ps. open_path g s t ps \<and> int (length ps) - 1 = ?d"
      using ps d by (intro exI [of _ ps]) simp
    have mn: "?d \<le> int (length rs) - 1" if "open_path g s t rs" for rs
    proof -
      from that have "rs \<noteq> []" by (simp add: open_path_def)
      with that have "?A (length rs - 1)" by (intro exI [of _ rs]) simp
      then have "Least ?A \<le> length rs - 1" by (rule Least_le)
      with d \<open>rs \<noteq> []\<close> show ?thesis by (cases rs) simp_all
    qed
    have zero: "?d = 0 \<longleftrightarrow> s = t"
    proof
      assume "?d = 0"
      with d ps show "s = t" by (auto intro: one)
    next
      assume "s = t"
      with self have "?A 0" by (intro exI [of _ "[s]"]) simp
      then have "Least ?A \<le> 0" by (rule Least_le)
      with d show "?d = 0" by simp
    qed
    from d have "?d \<noteq> - 1" by simp
    with res True ex mn zero show ?thesis by blast
  qed
qed

theorem path_distance_is_shortest_witness:
  "rectangular open5 \<and>
   get_character_coordinates open5 (CHR ''P'') = Some (1, 1) \<and>
   get_character_coordinates open5 (CHR ''O'') = Some (3, 3) \<and>
   calculate_path_distance open5 (CHR ''P'') (CHR ''O'') = Inr 4 \<and>
   (\<exists>ps. open_path open5 (1, 1) (3, 3) ps \<and> int (length ps) - 1 = 4) \<and>
   \<not> (\<exists>ps. open_path open5 (1, 1) (3, 3) ps \<and> int (length ps) - 1 < 4)"
proof -
  have r: "rectangular open5"
    by (simp add: rectangular_def open5_def)
  have s: "get_character_coordinates open5 (CHR ''P'') = Some (1, 1)"
    by (simp add: open5_def get_character_coordinates_def)
  have t: "get_character_coordinates open5 (CHR ''O'') = Some (3, 3)"
    by (simp add: open5_def get_character_coordinates_def)
  have d: "calculate_path_distance open5 (CHR ''P'') (CHR ''O'') = Inr 4"
    by code_simp
  from path_distance_is_shortest [OF r s t] d
  have "(\<exists>ps. open_path open5 (1, 1) (3, 3) ps \<and> int (length ps) - 1 = 4) \<and>
        (\<forall>ps. open_path open5 (1, 1) (3, 3) ps \<longrightarrow> 4 \<le> int (length ps) - 1)"
    by auto
  with r s t d show ?thesis by (simp only: simp_thms) fastforce
qed

section \<open>The path distance is symmetric\<close>

text \<open>
  Claim C10: on a rectangular grid, \<^verbatim>\<open>calculate_path_distance\<close> gives the same
  result for \<open>a, b\<close> as for \<open>b, a\<close>; when both tags occur in the grid that result is a
  number (the length of a shortest open path, or \<open>- 1\<close>).
\<close>

theorem path_distance_symmetric:
  assumes rect: "rectangular g"
  shows "calculate_path_distance g a b = calculate_path_distance g b a \<and>
         (get_character_coordinates g a \<noteq> None \<and> get_character_coordinates g b \<noteq> None
            \<longrightarrow> (\<exists>d. calculate_path_distance g a b = Inr d))"
proof (cases "get_character_coordinates g a")
  case None
  then show ?thesis
    by (simp add: calculate_path_distance_def split: option.splits)
next
  case sa: (Some s)
  show ?thesis
  proof (cases "get_character_coordinates g b")
    case None
    with sa show ?thesis
      by (simp add: calculate_path_distance_def)
  next
    case (Some t)
    have "calculate_path_distance g a b = Inr (shortest_open_path g s t)"
      using rect sa Some by (rule calculate_path_distance_shortest)
    moreover have "calculate_path_distance g b a = Inr (shortest_open_path g t s)"
      using rect Some sa by (rule calculate_path_distance_shortest)
    moreover have "shortest_open_path g s t = shortest_open_path g t s"
      by (rule shortest_open_path_sym)
    ultimately show ?thesis by (simp only: simp_thms) blast
  qed
qed

theorem path_distance_symmetric_witness:
  "rectangular open5 \<and>
   calculate_path_distance open5 (CHR ''P'') (CHR ''O'')
     = calculate_path_distance open5 (CHR ''O'') (CHR ''P'') \<and>
   (\<exists>d. calculate_path_distance open5 (CHR ''P'') (CHR ''O'') = Inr d)"
proof -
  have r: "rectangular open5"
    by (simp add: rectangular_def open5_def)
  have "get_character_coordinates open5 (CHR ''P'') \<noteq> None"
    and "get_character_coordinates open5 (CHR ''O'') \<noteq> None"
    by (simp_all add: open5_def get_character_coordinates_def)
  with path_distance_symmetric [OF r, of "CHR ''P''" "CHR ''O''"] r show ?thesis
    by metis
qed

section \<open>Path-aware move selection\<close>

subsection \<open>Candidate grids\<close>

lemma scan_rows_None: "scan_rows y0 rows c = None \<longleftrightarrow> (\<forall>row \<in> set rows. c \<notin> set row)"
  by (induction rows arbitrary: y0) auto

lemma holds_in_row: "holds g p c \<Longrightarrow> \<exists>row \<in> set g. c \<in> set row"
proof -
  assume h: "holds g p c"
  then have "nat (snd p) < length g" "nat (fst p) < length (g ! nat (snd p))"
    by (auto simp: holds_def)
  then have "g ! nat (snd p) \<in> set g" "g ! nat (snd p) ! nat (fst p) \<in> set (g ! nat (snd p))"
    by (simp_all only: nth_mem)
  with h show ?thesis by (auto simp: holds_def)
qed

lemma located_holds: "get_character_coordinates g c = Some p \<Longrightarrow> holds g p c"
  using get_character_coordinates_SomeD [of g c "fst p" "snd p"] by (simp add: holds_def)

lemma located_unique:
  assumes "holds g p c" and "\<forall>q. holds g q c \<longrightarrow> q = p"
  shows "get_character_coordinates g c = Some p"
proof (cases "get_character_coordinates g c")
  case None
  with holds_in_row [OF assms(1)] show ?thesis
    by (simp add: get_character_coordinates_def scan_rows_None)
next
  case (Some q)
  from located_holds [OF Some] assms(2) have "q = p" by blast
  with Some show ?thesis by simp
qed

lemma hd_length_grid_upd: "length (hd (grid_upd g x y v)) = length (hd g)"
proof (cases "g = []")
  case True
  then show ?thesis by (simp add: grid_upd_def)
next
  case False
  then have "grid_upd g x y v \<noteq> []"
    using length_grid_upd [of g x y v] by (metis length_0_conv)
  with False have "hd (grid_upd g x y v) = grid_upd g x y v ! 0" "hd g = g ! 0"
    by (simp_all add: hd_conv_nth)
  then show ?thesis by simp
qed

lemma rectangular_grid_upd: "rectangular g \<Longrightarrow> rectangular (grid_upd g x y v)"
proof -
  assume r: "rectangular g"
  have "length row = length (hd (grid_upd g x y v))" if "row \<in> set (grid_upd g x y v)" for row
  proof -
    from that obtain j where j: "j < length g" "row = grid_upd g x y v ! j"
      by (metis in_set_conv_nth length_grid_upd)
    then have "length row = length (g ! j)" by simp
    also from j r have "\<dots> = length (hd g)" by (simp add: rectangular_def)
    finally show ?thesis by (simp add: hd_length_grid_upd)
  qed
  then show ?thesis by (simp add: rectangular_def)
qed

lemma in_bounds_grid_upd [simp]: "in_bounds (grid_upd g x y v) p = in_bounds g p"
  by (simp add: in_bounds_def hd_length_grid_upd)

lemma holds_functional: "holds g p c \<Longrightarrow> holds g p c' \<Longrightarrow> c = c'"
  by (simp add: holds_def)

lemma open_cell_holds: "rectangular g \<Longrightarrow> open_cell g p \<longleftrightarrow> holds g p space"
proof -
  assume r: "rectangular g"
  have "length (g ! nat (snd p)) = length (hd g)" if "0 \<le> snd p" "snd p < int (length g)"
  proof -
    from that have "g ! nat (snd p) \<in> set g" by (intro nth_mem) auto
    with r show ?thesis by (simp add: rectangular_def)
  qed
  then show ?thesis
    by (auto simp: open_cell_def in_bounds_def holds_def)
qed

lemma holds_candidate:
  assumes X: "holds g X c1" and A: "holds g A space"
  shows "holds (candidate g c X A) p c' \<longleftrightarrow>
     (if p = A then c' = c else if p = X then c' = space else holds g p c')"
proof -
  from X have X0: "0 \<le> fst X" "0 \<le> snd X" by (simp_all add: holds_def)
  from A have A0: "0 \<le> fst A" "0 \<le> snd A" by (simp_all add: holds_def)
  from X have Xv: "holds g X (g ! nat (snd X) ! nat (fst X))" by (simp add: holds_def)
  have inner: "holds (grid_upd g (fst X) (snd X) space) q d \<longleftrightarrow>
      (if q = X then d = space else holds g q d)" for q d
    using holds_grid_upd [OF X0, of g space q d] Xv by (cases X) auto
  let ?g1 = "grid_upd g (fst X) (snd X) space"
  from inner [of A space] A have A': "holds ?g1 A space"
    by (simp split: if_splits)
  then have Av: "holds ?g1 A (?g1 ! nat (snd A) ! nat (fst A))" by (simp add: holds_def)
  have "holds (candidate g c X A) p c' \<longleftrightarrow> (if p = A then c' = c else holds ?g1 p c')"
    unfolding candidate_def
    using holds_grid_upd [OF A0, of ?g1 c p c'] Av
    by (cases A) auto
  with inner [of p c'] show ?thesis by simp
qed

lemma candidate_facts:
  assumes pu: "pursuit g c1 c2 X t" and A: "open_cell g A"
  shows "rectangular (candidate g c1 X A)"
    and "get_character_coordinates (candidate g c1 X A) c1 = Some A"
    and "get_character_coordinates (candidate g c1 X A) c2 = Some t"
    and "\<And>p. open_cell (candidate g c1 X A) p \<longleftrightarrow> p = X \<or> (open_cell g p \<and> p \<noteq> A)"
    and "t \<noteq> A" and "t \<noteq> X"
proof -
  from pu have r: "rectangular g" and X: "holds g X c1" and uX: "\<forall>q. holds g q c1 \<longrightarrow> q = X"
    and T: "holds g t c2" and uT: "\<forall>q. holds g q c2 \<longrightarrow> q = t"
    and ne: "c1 \<noteq> c2" "c1 \<noteq> space" "c2 \<noteq> space"
    by (simp_all add: pursuit_def)
  from A r have As: "holds g A space" by (simp add: open_cell_holds)
  note hc = holds_candidate [OF X As, of c1]
  from T As ne show tA: "t \<noteq> A" by (auto dest: holds_functional)
  from T X ne show tX: "t \<noteq> X" by (auto dest: holds_functional)
  from X As ne have XA: "X \<noteq> A" by (auto dest: holds_functional)
  show r': "rectangular (candidate g c1 X A)"
    unfolding candidate_def using r by (intro rectangular_grid_upd)
  show "get_character_coordinates (candidate g c1 X A) c1 = Some A"
  proof (rule located_unique)
    show "holds (candidate g c1 X A) A c1" by (simp add: hc)
    show "\<forall>q. holds (candidate g c1 X A) q c1 \<longrightarrow> q = A"
      using uX ne by (auto simp: hc split: if_splits)
  qed
  show "get_character_coordinates (candidate g c1 X A) c2 = Some t"
  proof (rule located_unique)
    show "holds (candidate g c1 X A) t c2" using tA tX T by (simp add: hc)
    show "\<forall>q. holds (candidate g c1 X A) q c2 \<longrightarrow> q = t"
      using uT ne by (auto simp: hc split: if_splits)
  qed
  show "open_cell (candidate g c1 X A) p \<longleftrightarrow> p = X \<or> (open_cell g p \<and> p \<noteq> A)" for p
    unfolding open_cell_holds [OF r'] open_cell_holds [OF r] hc using ne XA by auto
qed

lemma walk_suffix: "walk (ps @ qs) \<Longrightarrow> walk qs"
  using walk_prefix [of "rev qs" "rev ps"] by (simp add: walk_rev flip: rev_append)

lemma reroute:
  assumes pu: "pursuit g c1 c2 X t" and A: "open_cell g A" and B: "open_cell g B"
    and XA: "adjacent X A" and XB: "adjacent X B"
    and path: "open_path (candidate g c1 X A) A t ps"
  shows "\<exists>ps'. open_path (candidate g c1 X B) B t ps'"
proof -
  note fA = candidate_facts [OF pu A] and fB = candidate_facts [OF pu B]
  from path have ne: "ps \<noteq> []" and h: "hd ps = A" and l: "last ps = t" and w: "walk ps"
    and mid: "\<forall>p \<in> set (butlast (tl ps)). open_cell (candidate g c1 X A) p"
    by (simp_all add: open_path_def)
  have keep: "open_cell (candidate g c1 X B) p"
    if "p \<in> set (butlast (tl ps))" "p \<noteq> B" for p
  proof -
    from that(1) mid have "open_cell (candidate g c1 X A) p" by blast
    with that(2) show ?thesis unfolding fA(4) fB(4) by blast
  qed
  show ?thesis
  proof (cases "B \<in> set ps")
    case True
    then obtain pre suf where ps: "ps = pre @ B # suf" and Bs: "B \<notin> set suf"
      by (meson split_list_last)
    have "open_path (candidate g c1 X B) B t (B # suf)"
      unfolding open_path_def
    proof (intro conjI ballI)
      show "B # suf \<noteq> []" by simp
      show "hd (B # suf) = B" by simp
      show "last (B # suf) = t" using l ps by simp
      show "walk (B # suf)" using w ps walk_suffix by blast
    next
      fix p assume p: "p \<in> set (butlast (tl (B # suf)))"
      then have psuf: "p \<in> set (butlast suf)" by simp
      then have sne: "suf \<noteq> []" by auto
      from psuf have "p \<in> set suf" by (meson in_set_butlastD)
      with Bs have pB: "p \<noteq> B" by blast
      have "p \<in> set (butlast (tl ps))"
      proof (cases pre)
        case Nil
        with ps psuf show ?thesis by simp
      next
        case (Cons a pre')
        with ps sne psuf show ?thesis by (simp add: butlast_append)
      qed
      from keep [OF this pB] show "open_cell (candidate g c1 X B) p" .
    qed
    then show ?thesis by blast
  next
    case False
    from ne h obtain rest where ps: "ps = A # rest" by (cases ps) auto
    from False ps have AB: "A \<noteq> B" by auto
    have "open_path (candidate g c1 X B) B t (B # X # ps)"
      unfolding open_path_def
    proof (intro conjI ballI)
      show "B # X # ps \<noteq> []" by simp
      show "hd (B # X # ps) = B" by simp
      show "last (B # X # ps) = t" using l ne by simp
      show "walk (B # X # ps)"
        using w XA XB ps by (simp add: adjacent_sym [of B X])
    next
      fix p assume "p \<in> set (butlast (tl (B # X # ps)))"
      with ne have "p = X \<or> p \<in> set (butlast ps)" by simp
      then consider "p = X" | "p = A" "rest \<noteq> []" | "p \<in> set (butlast (tl ps))"
        unfolding ps by (auto split: if_splits)
      then show "open_cell (candidate g c1 X B) p"
      proof cases
        case 1
        then show ?thesis unfolding fB(4) by simp
      next
        case 2
        with A AB show ?thesis unfolding fB(4) by simp
      next
        case 3
        then have "p \<in> set ps"
          by (metis in_set_butlastD list.set_sel(2) ne)
        with False have "p \<noteq> B" by blast
        from keep [OF 3 this] show ?thesis .
      qed
    qed
    then show ?thesis by blast
  qed
qed

lemma candidates_agree:
  assumes pu: "pursuit g c1 c2 X t" and A: "open_cell g A" and B: "open_cell g B"
    and XA: "adjacent X A" and XB: "adjacent X B"
  shows "shortest_open_path (candidate g c1 X A) A t = - 1 \<longleftrightarrow>
         shortest_open_path (candidate g c1 X B) B t = - 1"
proof -
  have "(\<exists>ps. open_path (candidate g c1 X A) A t ps) \<longleftrightarrow>
        (\<exists>ps. open_path (candidate g c1 X B) B t ps)"
    using reroute [OF pu A B XA XB] reroute [OF pu B A XB XA] by blast
  then show ?thesis by (simp add: shortest_open_path_def)
qed

subsection \<open>The first least element\<close>

lemma min_scan_first:
  "\<exists>pre r post. best # xs = pre @ r # post \<and> min_scan best (map Inr xs) = Inr r \<and>
     (\<forall>v \<in> set pre. snd r < snd v) \<and> (\<forall>v \<in> set post. snd r \<le> snd v)"
proof (induction xs arbitrary: best)
  case Nil
  show ?case by (intro exI [of _ "[]"] exI [of _ best]) simp
next
  case (Cons x xs)
  show ?case
  proof (cases "snd x < snd best")
    case True
    from Cons.IH [of x] obtain pre r post where d: "x # xs = pre @ r # post"
      and m: "min_scan x (map Inr xs) = Inr r"
      and lt: "\<forall>v \<in> set pre. snd r < snd v" and le: "\<forall>v \<in> set post. snd r \<le> snd v"
      by blast
    have "x \<in> set (pre @ r # post)" using d by (metis list.set_intros(1))
    with lt le have "snd r \<le> snd x" by auto
    with True have rb: "snd r < snd best" by simp
    show ?thesis
    proof (rule exI [of _ "best # pre"], rule exI [of _ r], rule exI [of _ post], intro conjI)
      show "best # x # xs = (best # pre) @ r # post" using d by simp
      show "min_scan best (map Inr (x # xs)) = Inr r" using True m by simp
      show "\<forall>v \<in> set (best # pre). snd r < snd v" using rb lt by simp
      show "\<forall>v \<in> set post. snd r \<le> snd v" by (rule le)
    qed
  next
    case False
    from Cons.IH [of best] obtain pre r post where d: "best # xs = pre @ r # post"
      and m: "min_scan best (map Inr xs) = Inr r"
      and lt: "\<forall>v \<in> set pre. snd r < snd v" and le: "\<forall>v \<in> set post. snd r \<le> snd v"
      by blast
    show ?thesis
    proof (cases pre)
      case Nil
      with d have r: "r = best" and post: "post = xs" by simp_all
      show ?thesis
      proof (rule exI [of _ "[]"], rule exI [of _ best], rule exI [of _ "x # xs"], intro conjI)
        show "best # x # xs = [] @ best # x # xs" by simp
        show "min_scan best (map Inr (x # xs)) = Inr best" using False m r by simp
        show "\<forall>v \<in> set []. snd best < snd v" by simp
        show "\<forall>v \<in> set (x # xs). snd best \<le> snd v" using False le r post by auto
      qed
    next
      case (Cons b pre')
      with d have b: "b = best" and xs: "xs = pre' @ r # post" by simp_all
      from lt Cons b have "snd r < snd best" by simp
      with False have rx: "snd r < snd x" by simp
      show ?thesis
      proof (rule exI [of _ "best # x # pre'"], rule exI [of _ r], rule exI [of _ post], intro conjI)
        show "best # x # xs = (best # x # pre') @ r # post" using xs by simp
        show "min_scan best (map Inr (x # xs)) = Inr r" using False m by simp
        show "\<forall>v \<in> set (best # x # pre'). snd r < snd v" using lt Cons b rx by simp
        show "\<forall>v \<in> set post. snd r \<le> snd v" by (rule le)
      qed
    qed
  qed
qed

lemma py_min_first:
  assumes "xs \<noteq> []"
  shows "\<exists>pre r post. xs = pre @ r # post \<and> py_min (map Inr xs) = Inr r \<and>
     (\<forall>v \<in> set pre. snd r < snd v) \<and> (\<forall>v \<in> set post. snd r \<le> snd v)"
proof -
  from assms obtain b ys where xs: "xs = b # ys" by (cases xs) auto
  from min_scan_first [of b ys] show ?thesis unfolding xs by simp
qed

lemma possible_moves_adjacent: "p \<in> set (possible_moves x y) \<Longrightarrow> adjacent (x, y) p"
  by (auto simp: possible_moves_def adjacent_def)

lemma pursuit_candidates:
  assumes pu: "pursuit g c1 c2 X t"
    and gen: "generate_possible_moves g c1 = Inr cands"
  shows "\<exists>vm. cands = map (candidate g c1 X) vm \<and>
           (\<forall>p \<in> set vm. open_cell g p \<and> adjacent X p)"
proof -
  obtain x y where Xxy: "X = (x, y)" by (cases X)
  from pu have r: "rectangular g" and hX: "holds g X c1" and uX: "\<forall>q. holds g q c1 \<longrightarrow> q = X"
    by (simp_all add: pursuit_def)
  from located_unique [OF hX uX] Xxy
  have loc: "get_character_coordinates g c1 = Some (x, y)" by simp
  let ?vm = "filter (open_cell g) (possible_moves x y)"
  from gen loc valid_moves_rectangular [OF r, of "possible_moves x y"]
  have ng: "new_grids g c1 x y ?vm = Inr cands"
    by (simp add: generate_possible_moves_def)
  have mv: "move_to g c1 x y p = Inr (candidate g c1 X p)" if "p \<in> set ?vm" for p
  proof -
    from that r have "holds g p space" by (simp add: open_cell_holds)
    then have pb: "0 \<le> snd p" "snd p < int (length g)" "0 \<le> fst p"
      "fst p < int (length (g ! nat (snd p)))"
      by (simp_all add: holds_def)
    from hX Xxy have xb: "0 \<le> y" "y < int (length g)" "0 \<le> x" "x < int (length (g ! nat y))"
      by (simp_all add: holds_def)
    from move_to_in [OF xb pb, of c1] Xxy show ?thesis
      by (simp add: candidate_def)
  qed
  then have "new_grids g c1 x y ?vm = Inr (map (candidate g c1 X) ?vm)"
    by (intro new_grids_map) blast
  with ng have "cands = map (candidate g c1 X) ?vm" by simp
  moreover have "\<forall>p \<in> set ?vm. open_cell g p \<and> adjacent X p"
    using possible_moves_adjacent [of _ x y] Xxy by auto
  ultimately show ?thesis by blast
qed

subsection \<open>The selected move\<close>

text \<open>
  Claim C4, as stated: a candidate from which the target is reachable is preferred over
  one from which it is not, and when the target is unreachable from every candidate the
  selected move minimizes the Manhattan distance among the candidates. The second part
  fails: in the grid \<open>sealed\<close> the target is unreachable from both candidates, the
  Manhattan distances are 4 (up) and 2 (down), and \<^verbatim>\<open>make_smart_move\<close> moves up.
\<close>

theorem smart_move_fallback_counterexample:
  "generate_possible_moves (parse_grid (grid_to_string sealed)) (CHR ''P'')
     = Inr [sealed_up, sealed_down] \<and>
   calculate_path_distance sealed_up (CHR ''P'') (CHR ''O'') = Inr (- 1) \<and>
   calculate_path_distance sealed_down (CHR ''P'') (CHR ''O'') = Inr (- 1) \<and>
   calculate_distance sealed_up (CHR ''P'') (CHR ''O'') = Inr 4 \<and>
   calculate_distance sealed_down (CHR ''P'') (CHR ''O'') = Inr 2 \<and>
   make_smart_move (grid_to_string sealed) (CHR ''P'') (CHR ''O'') = Inr (grid_to_string sealed_up)"
  by code_simp

lemma sealed_pursuit: "pursuit sealed (CHR ''P'') (CHR ''O'') (1, 2) (1, 5)"
  unfolding pursuit_def
proof (intro conjI)
  show "rectangular sealed" by (simp add: rectangular_def sealed_def)
  show "holds sealed (1, 2) (CHR ''P'')" by (simp add: holds_def sealed_def)
  show "holds sealed (1, 5) (CHR ''O'')" by (simp add: holds_def sealed_def)
  show "\<forall>q. holds sealed q (CHR ''P'') \<longrightarrow> q = (1, 2)"
    by (auto simp: holds_def sealed_def nth_Cons' split: if_splits)
  show "\<forall>q. holds sealed q (CHR ''O'') \<longrightarrow> q = (1, 5)"
    by (auto simp: holds_def sealed_def nth_Cons' split: if_splits)
qed (simp_all add: space_def)

text \<open>
  Claim C4, amended: in a pursuit (rectangular grid, each tag exactly once, tags
  distinct and not the space) where the mover has a legal candidate,
  \<^verbatim>\<open>make_smart_move\<close> returns the first candidate, in enumeration order, whose
  path distance to the target is least, the distance of an unreachable target being
  \<open>- 1\<close>. If the target is unreachable from the selected candidate, it is unreachable
  from every candidate, so a candidate that reaches the target is never passed over for
  one that does not; and then the selected candidate is the first in enumeration
  order. There is no fallback to the Manhattan distance.
\<close>

theorem smart_move_selection:
  assumes pu: "pursuit (parse_grid gs) c1 c2 X t"
    and gen: "generate_possible_moves (parse_grid gs) c1 = Inr cands"
    and ne: "cands \<noteq> []"
  shows "\<exists>pre best post d.
     cands = pre @ best # post \<and>
     make_smart_move gs c1 c2 = Inr (grid_to_string best) \<and>
     calculate_path_distance best c1 c2 = Inr d \<and>
     (\<forall>c \<in> set pre. \<exists>e. calculate_path_distance c c1 c2 = Inr e \<and> d < e) \<and>
     (\<forall>c \<in> set post. \<exists>e. calculate_path_distance c c1 c2 = Inr e \<and> d \<le> e) \<and>
     (d = - 1 \<longrightarrow> pre = [] \<and> (\<forall>c \<in> set cands. calculate_path_distance c c1 c2 = Inr (- 1)))"
proof -
  let ?g = "parse_grid gs"
  let ?cand = "candidate ?g c1 X"
  from pursuit_candidates [OF pu gen] obtain vm where cands: "cands = map ?cand vm"
    and vm: "\<forall>p \<in> set vm. open_cell ?g p \<and> adjacent X p"
    by blast
  define score where "score p = shortest_open_path (?cand p) p t" for p
  define f where "f p = (?cand p, score p)" for p
  have sc: "calculate_path_distance (?cand p) c1 c2 = Inr (score p)" if "p \<in> set vm" for p
  proof -
    from that vm have "open_cell ?g p" by blast
    note facts = candidate_facts [OF pu this]
    from calculate_path_distance_shortest [OF facts(1,2,3)] show ?thesis
      by (simp add: score_def)
  qed
  have dist: "map (\<lambda>c. case calculate_path_distance c c1 c2 of Inl e \<Rightarrow> Inl e | Inr d \<Rightarrow> Inr (c, d)) cands
      = map Inr (map f vm)"
    unfolding cands using sc by (simp add: f_def)
  from ne cands have "map f vm \<noteq> []" by simp
  from py_min_first [OF this] obtain pre' r post' where dec: "map f vm = pre' @ r # post'"
    and mn: "py_min (map Inr (map f vm)) = Inr r"
    and lt: "\<forall>v \<in> set pre'. snd r < snd v" and le: "\<forall>v \<in> set post'. snd r \<le> snd v"
    by blast
  from dec obtain vpre p0 vpost where vmd: "vm = vpre @ p0 # vpost"
    and pre': "pre' = map f vpre" and r: "r = f p0" and post': "post' = map f vpost"
    by (auto simp: map_eq_append_conv map_eq_Cons_conv)
  have p0: "p0 \<in> set vm" and vpre: "set vpre \<subseteq> set vm" and vpost: "set vpost \<subseteq> set vm"
    using vmd by auto
  have sel: "make_smart_move gs c1 c2 = Inr (grid_to_string (?cand p0))"
    using gen dist mn r
    by (simp add: make_smart_move_def calculate_path_distances_def find_best_move_def
        render_best_def f_def)
  have c1: "cands = map ?cand vpre @ ?cand p0 # map ?cand vpost"
    unfolding cands vmd by simp
  have c3: "calculate_path_distance (?cand p0) c1 c2 = Inr (score p0)"
    using p0 by (rule sc)
  have c4: "\<forall>c \<in> set (map ?cand vpre). \<exists>e. calculate_path_distance c c1 c2 = Inr e \<and> score p0 < e"
  proof
    fix c assume "c \<in> set (map ?cand vpre)"
    then obtain p where p: "p \<in> set vpre" "c = ?cand p" by auto
    with lt pre' r have "score p0 < score p" by (simp add: f_def)
    moreover from p vpre have "calculate_path_distance c c1 c2 = Inr (score p)"
      by (simp add: sc subsetD)
    ultimately show "\<exists>e. calculate_path_distance c c1 c2 = Inr e \<and> score p0 < e" by blast
  qed
  have c5: "\<forall>c \<in> set (map ?cand vpost). \<exists>e. calculate_path_distance c c1 c2 = Inr e \<and> score p0 \<le> e"
  proof
    fix c assume "c \<in> set (map ?cand vpost)"
    then obtain p where p: "p \<in> set vpost" "c = ?cand p" by auto
    with le post' r have "score p0 \<le> score p" by (simp add: f_def)
    moreover from p vpost have "calculate_path_distance c c1 c2 = Inr (score p)"
      by (simp add: sc subsetD)
    ultimately show "\<exists>e. calculate_path_distance c c1 c2 = Inr e \<and> score p0 \<le> e" by blast
  qed
  have c6: "map ?cand vpre = [] \<and> (\<forall>c \<in> set cands. calculate_path_distance c c1 c2 = Inr (- 1))"
    if d: "score p0 = - 1"
  proof -
    have all: "score p = - 1" if "p \<in> set vm" for p
    proof -
      from vm p0 that have "open_cell ?g p0" "open_cell ?g p" "adjacent X p0" "adjacent X p"
        by blast+
      from candidates_agree [OF pu this] d show ?thesis by (simp add: score_def)
    qed
    have "vpre = []"
    proof (rule ccontr)
      assume "vpre \<noteq> []"
      then obtain p where p: "p \<in> set vpre" by (cases vpre) auto
      with lt pre' r have "score p0 < score p" by (simp add: f_def)
      with d all [of p] p vpre show False by auto
    qed
    moreover have "\<forall>c \<in> set cands. calculate_path_distance c c1 c2 = Inr (- 1)"
      unfolding cands using sc all by auto
    ultimately show ?thesis by simp
  qed
  show ?thesis
  proof (rule exI [of _ "map ?cand vpre"], rule exI [of _ "?cand p0"],
      rule exI [of _ "map ?cand vpost"], rule exI [of _ "score p0"], intro conjI impI)
    show "cands = map ?cand vpre @ ?cand p0 # map ?cand vpost" by (rule c1)
    show "make_smart_move gs c1 c2 = Inr (grid_to_string (?cand p0))" by (rule sel)
    show "calculate_path_distance (?cand p0) c1 c2 = Inr (score p0)" by (rule c3)
    show "\<forall>c \<in> set (map ?cand vpre). \<exists>e. calculate_path_distance c c1 c2 = Inr e \<and> score p0 < e"
      by (rule c4)
    show "\<forall>c \<in> set (map ?cand vpost). \<exists>e. calculate_path_distance c c1 c2 = Inr e \<and> score p0 \<le> e"
      by (rule c5)
    show "map ?cand vpre = []" if "score p0 = - 1" using c6 [OF that] by simp
    show "\<forall>c \<in> set cands. calculate_path_distance c c1 c2 = Inr (- 1)" if "score p0 = - 1"
      using c6 [OF that] by simp
  qed
qed

theorem smart_move_selection_witness:
  "pursuit (parse_grid (grid_to_string sealed)) (CHR ''P'') (CHR ''O'') (1, 2) (1, 5) \<and>
   generate_possible_moves (parse_grid (grid_to_string sealed)) (CHR ''P'')
     = Inr [sealed_up, sealed_down] \<and>
   [sealed_up, sealed_down] \<noteq> [] \<and>
   (\<exists>pre best post d.
     [sealed_up, sealed_down] = pre @ best # post \<and>
     make_smart_move (grid_to_string sealed) (CHR ''P'') (CHR ''O'') = Inr (grid_to_string best) \<and>
     calculate_path_distance best (CHR ''P'') (CHR ''O'') = Inr d \<and>
     (\<forall>c \<in> set pre. \<exists>e. calculate_path_distance c (CHR ''P'') (CHR ''O'') = Inr e \<and> d < e) \<and>
     (\<forall>c \<in> set post. \<exists>e. calculate_path_distance c (CHR ''P'') (CHR ''O'') = Inr e \<and> d \<le> e) \<and>
     (d = - 1 \<longrightarrow> pre = [] \<and>
        (\<forall>c \<in> set [sealed_up, sealed_down].
           calculate_path_distance c (CHR ''P'') (CHR ''O'') = Inr (- 1))))"
proof -
  have p: "parse_grid (grid_to_string sealed) = sealed"
    by code_simp
  have pu: "pursuit (parse_grid (grid_to_string sealed)) (CHR ''P'') (CHR ''O'') (1, 2) (1, 5)"
    unfolding p by (rule sealed_pursuit)
  have gen: "generate_possible_moves (parse_grid (grid_to_string sealed)) (CHR ''P'')
     = Inr [sealed_up, sealed_down]"
    by code_simp
  have ne: "[sealed_up, sealed_down] \<noteq> []" by simp
  from smart_move_selection [OF pu gen ne] pu gen ne show ?thesis by blast
qed

section \<open>The border of a generated maze\<close>

text \<open>
  Claim C3 says that every border cell of a generated maze is a wall. For an even
  dimension \<^verbatim>\<open>range(1, m, 2)\<close> contains \<open>m - 1\<close>, a border index, and the start cell
  is opened without the test that guards carving: with \<open>n = m = 6\<close> and both choices
  falling on the last element, the start is \<open>(5, 5)\<close>, the corner, which is opened; no
  direction passes the guard, and the maze has that single open cell. One activation of
  \<^verbatim>\<open>carve_passages\<close> is all the run needs.
\<close>

theorem generate_maze_opens_border:
  "py_range 1 6 2 = [1, 3, 5] \<and>
   random_choice (py_range 1 6 2) 2 = Inr 5 \<and>
   (\<forall>depth. generate_maze (Suc depth) 6 6 2 2 (\<lambda>_. carve_directions) = Inr corner_maze) \<and>
   cell_at corner_maze 5 5 = Inr space"
proof -
  have r: "py_range 1 6 2 = [1, 3, 5]" by code_simp
  have c: "random_choice (py_range 1 6 2) 2 = Inr 5" by code_simp
  have s: "set_cell (initialize_grid 6 6) 5 5 space = Inr corner_maze" by code_simp
  have o: "cell_at corner_maze 5 5 = Inr space" by code_simp
  have "generate_maze (Suc depth) 6 6 2 2 (\<lambda>_. carve_directions) = Inr corner_maze" for depth
    by (simp add: generate_maze_def generate_maze_run_def c s carve_directions_def)
  with r c o show ?thesis by simp
qed

section \<open>Trees of cells\<close>

lemma simple_path_rev: "simple_path S b a (rev ps) \<longleftrightarrow> simple_path S a b ps"
  by (auto simp: simple_path_def walk_rev hd_rev last_rev)

lemma simple_path_mono: "simple_path S a b ps \<Longrightarrow> S \<subseteq> T \<Longrightarrow> simple_path T a b ps"
  by (auto simp: simple_path_def)

lemma simple_path_single: "simple_path S a a ps \<Longrightarrow> ps = [a]"
proof -
  assume p: "simple_path S a a ps"
  then obtain ps' where ps: "ps = a # ps'"
    by (cases ps) (auto simp: simple_path_def)
  have "ps' = []"
  proof (rule ccontr)
    assume "ps' \<noteq> []"
    with p ps have "last ps' = a" by (simp add: simple_path_def)
    with \<open>ps' \<noteq> []\<close> have "a \<in> set ps'" by (metis last_in_set)
    with p ps show False by (simp add: simple_path_def)
  qed
  with ps show ?thesis by simp
qed

lemma tree_like_single: "tree_like {s}"
proof -
  have one: "ps = [s]" if "simple_path {s} a b ps" for a b ps
  proof -
    from that have ne: "ps \<noteq> []" and d: "distinct ps" and sub: "set ps \<subseteq> {s}"
      by (simp_all add: simple_path_def)
    from ne obtain p ps' where ps: "ps = p # ps'" by (cases ps) auto
    with sub have p: "p = s" by simp
    have "ps' = []"
    proof (cases ps')
      case (Cons q qs)
      with sub ps have "q = s" by simp
      with d ps p Cons show ?thesis by simp
    qed simp
    with ps p show ?thesis by simp
  qed
  have "simple_path {s} s s [s]" by (simp add: simple_path_def)
  with one show ?thesis unfolding tree_like_def by blast
qed

text \<open>A leaf \<open>v\<close>, adjacent to \<open>u\<close> and to no other position of \<open>S\<close>.\<close>

lemma leaf_not_inner:
  assumes leaf: "\<forall>w \<in> S. adjacent w v \<longrightarrow> w = u"
  shows "walk ps \<Longrightarrow> distinct ps \<Longrightarrow> set ps \<subseteq> insert v S \<Longrightarrow> ps \<noteq> [] \<Longrightarrow>
     hd ps \<noteq> v \<Longrightarrow> last ps \<noteq> v \<Longrightarrow> v \<notin> set ps"
proof (induction ps rule: walk.induct)
  case 1
  then show ?case by simp
next
  case (2 p)
  then show ?case by simp
next
  case (3 p q ps)
  show ?case
  proof (cases "q = v")
    case True
    with "3.prems" obtain r ps' where ps: "ps = r # ps'" by (cases ps) auto
    from "3.prems" True ps have pS: "p \<in> S" and rS: "r \<in> S" and pr: "p \<noteq> r"
      and a1: "adjacent p v" and a2: "adjacent v r"
      by auto
    from leaf pS a1 have "p = u" by blast
    moreover from leaf rS a2 have "r = u" by (simp add: adjacent_sym [of r v])
    ultimately show ?thesis using pr by simp
  next
    case False
    with "3.prems" have "v \<notin> set (q # ps)"
      by (intro "3.IH") auto
    with "3.prems" show ?thesis by auto
  qed
qed

lemma leaf_avoid:
  assumes leaf: "\<forall>w \<in> S. adjacent w v \<longrightarrow> w = u"
    and p: "simple_path (insert v S) a b ps" and "a \<noteq> v" "b \<noteq> v"
  shows "simple_path S a b ps"
proof -
  from p assms(3,4) have "v \<notin> set ps"
    by (intro leaf_not_inner [OF leaf]) (simp_all add: simple_path_def)
  with p show ?thesis by (auto simp: simple_path_def)
qed

lemma leaf_start:
  assumes leaf: "\<forall>w \<in> S. adjacent w v \<longrightarrow> w = u"
    and p: "simple_path (insert v S) v b ps" and "b \<noteq> v"
  shows "\<exists>ps'. ps = v # ps' \<and> simple_path S u b ps'"
proof -
  from p obtain ps' where ps: "ps = v # ps'"
    by (cases ps) (auto simp: simple_path_def)
  with p assms(3) obtain r rs where ps': "ps' = r # rs"
    by (cases ps') (auto simp: simple_path_def)
  from p ps ps' have rv: "r \<noteq> v" and vn: "v \<notin> set ps'" and a: "adjacent v r"
    and sub: "set ps' \<subseteq> insert v S"
    by (auto simp: simple_path_def)
  from sub vn have sub': "set ps' \<subseteq> S" by blast
  with ps' have "r \<in> S" by simp
  with leaf a have "r = u" by (simp add: adjacent_sym [of r v])
  with p ps ps' sub' have "simple_path S u b ps'"
    by (auto simp: simple_path_def)
  with ps show ?thesis by blast
qed

lemma tree_like_leaf:
  assumes tree: "tree_like S" and vS: "v \<notin> S" and uS: "u \<in> S" and uv: "adjacent u v"
    and leaf: "\<forall>w \<in> S. adjacent w v \<longrightarrow> w = u"
  shows "tree_like (insert v S)"
proof -
  let ?T = "insert v S"
  from tree have conn: "\<And>a b. a \<in> S \<Longrightarrow> b \<in> S \<Longrightarrow> \<exists>ps. simple_path S a b ps"
    and uniq: "\<And>a b ps qs. simple_path S a b ps \<Longrightarrow> simple_path S a b qs \<Longrightarrow> ps = qs"
    unfolding tree_like_def by blast+
  have from_v: "\<exists>ps. simple_path ?T v b ps" if "b \<in> S" for b
  proof -
    from conn [OF uS that] obtain ps where ps: "simple_path S u b ps" by blast
    then have "simple_path ?T v b (v # ps)"
      using vS uv by (cases ps) (auto simp: simple_path_def adjacent_sym [of v u])
    then show ?thesis by blast
  qed
  have ex: "\<exists>ps. simple_path ?T a b ps" if "a \<in> ?T" "b \<in> ?T" for a b
  proof (cases "a = v")
    case av: True
    show ?thesis
    proof (cases "b = v")
      case True
      with av have "simple_path ?T a b [v]" by (simp add: simple_path_def)
      then show ?thesis by blast
    next
      case False
      with that av from_v [of b] show ?thesis by auto
    qed
  next
    case av: False
    show ?thesis
    proof (cases "b = v")
      case True
      from av that from_v [of a] obtain ps where "simple_path ?T v a ps" by auto
      then have "simple_path ?T a v (rev ps)" by (simp add: simple_path_rev)
      with True show ?thesis by blast
    next
      case False
      with av that conn [of a b] obtain ps where "simple_path S a b ps" by auto
      then have "simple_path ?T a b ps" by (rule simple_path_mono) blast
      then show ?thesis by blast
    qed
  qed
  have un_v: "ps = qs" if "simple_path ?T v b ps" "simple_path ?T v b qs" "b \<noteq> v" for b ps qs
  proof -
    from leaf_start [OF leaf that(1,3)] leaf_start [OF leaf that(2,3)]
    obtain ps' qs' where "ps = v # ps'" "simple_path S u b ps'" "qs = v # qs'" "simple_path S u b qs'"
      by blast
    with uniq [of u b ps' qs'] show ?thesis by simp
  qed
  have un: "ps = qs" if p: "simple_path ?T a b ps" and q: "simple_path ?T a b qs" for a b ps qs
  proof (cases "a = v")
    case av: True
    show ?thesis
    proof (cases "b = v")
      case True
      with av p q have "ps = [v]" "qs = [v]"
        by (auto dest: simple_path_single)
      then show ?thesis by simp
    next
      case False
      with av p q un_v show ?thesis by blast
    qed
  next
    case av: False
    show ?thesis
    proof (cases "b = v")
      case True
      with p q have "simple_path ?T v a (rev ps)" "simple_path ?T v a (rev qs)"
        by (simp_all add: simple_path_rev)
      from un_v [OF this av] show ?thesis by simp
    next
      case False
      from leaf_avoid [OF leaf p av False] leaf_avoid [OF leaf q av False]
      show ?thesis by (rule uniq)
    qed
  qed
  from ex un show ?thesis unfolding tree_like_def by blast
qed

section \<open>The carved cells form a tree\<close>

lemma adjacent_cases:
  "adjacent (a, b) (c, d) \<longleftrightarrow> (a = c \<and> (d = b + 1 \<or> d = b - 1)) \<or> (b = d \<and> (c = a + 1 \<or> c = a - 1))"
  by (auto simp: adjacent_def)

lemma lattice_tree_single: "odd x \<Longrightarrow> odd y \<Longrightarrow> lattice_tree {(x, y)}"
  by (simp add: lattice_tree_def tree_like_single)

lemma lattice_tree_carve:
  assumes lt: "lattice_tree S" and X: "(x, y) \<in> S" and ox: "odd x" and oy: "odd y"
    and e: "(ex, ey) \<in> {(0, 1), (0, - 1), (1, 0), (- 1, 0)}"
    and N: "(x + 2 * ex, y + 2 * ey) \<notin> S"
  shows "(x + ex, y + ey) \<notin> S"
    and "lattice_tree (insert (x + 2 * ex, y + 2 * ey) (insert (x + ex, y + ey) S))"
proof -
  let ?M = "(x + ex, y + ey)" and ?N = "(x + 2 * ex, y + 2 * ey)"
  from lt have par: "\<And>p. p \<in> S \<Longrightarrow> odd (fst p) \<or> odd (snd p)"
    and hor: "\<And>p. p \<in> S \<Longrightarrow> even (fst p) \<Longrightarrow> (fst p - 1, snd p) \<in> S \<and> (fst p + 1, snd p) \<in> S"
    and ver: "\<And>p. p \<in> S \<Longrightarrow> even (snd p) \<Longrightarrow> (fst p, snd p - 1) \<in> S \<and> (fst p, snd p + 1) \<in> S"
    and tree: "tree_like S"
    unfolding lattice_tree_def by blast+
  show M: "?M \<notin> S"
  proof
    assume "?M \<in> S"
    from hor [OF this] ver [OF this] e ox oy N show False by (auto simp: add.commute)
  qed
  have leafM: "\<forall>w \<in> S. adjacent w ?M \<longrightarrow> w = (x, y)"
  proof (intro ballI impI)
    fix w assume w: "w \<in> S" and a: "adjacent w ?M"
    obtain wx wy where wxy: "w = (wx, wy)" by (cases w)
    from par [OF w] wxy have "odd wx \<or> odd wy" by simp
    with a wxy e ox oy N w show "w = (x, y)"
      by (auto simp: adjacent_cases add.commute)
  qed
  have t1: "tree_like (insert ?M S)"
    using tree M X _ leafM
  proof (rule tree_like_leaf)
    from e show "adjacent (x, y) ?M" by (auto simp: adjacent_cases)
  qed
  have leafN: "\<forall>w \<in> insert ?M S. adjacent w ?N \<longrightarrow> w = ?M"
  proof (intro ballI impI)
    fix w assume w: "w \<in> insert ?M S" and a: "adjacent w ?N"
    show "w = ?M"
    proof (rule ccontr)
      assume "w \<noteq> ?M"
      with w have wS: "w \<in> S" by simp
      obtain wx wy where wxy: "w = (wx, wy)" by (cases w)
      from hor [OF wS] ver [OF wS] a wxy e ox oy N show False
        by (auto simp: adjacent_cases add.commute)
    qed
  qed
  have NM: "?N \<notin> insert ?M S" using N e by auto
  have t2: "tree_like (insert ?N (insert ?M S))"
    using t1 NM _ _ leafN
  proof (rule tree_like_leaf)
    show "?M \<in> insert ?M S" by simp
    from e show "adjacent ?M ?N" by (auto simp: adjacent_cases)
  qed
  show "lattice_tree (insert ?N (insert ?M S))"
    unfolding lattice_tree_def
  proof (intro conjI ballI impI)
    fix p assume "p \<in> insert ?N (insert ?M S)"
    then consider "p = ?N" | "p = ?M" | "p \<in> S" by blast
    then show "odd (fst p) \<or> odd (snd p)"
    proof cases
      case 1
      with e ox oy show ?thesis by auto
    next
      case 2
      with e ox oy show ?thesis by auto
    next
      case 3
      then show ?thesis by (rule par)
    qed
  next
    fix p assume p: "p \<in> insert ?N (insert ?M S)" and ev: "even (fst p)"
    then consider "p = ?N" | "p = ?M" | "p \<in> S" by blast
    then have "(fst p - 1, snd p) \<in> insert ?N (insert ?M S) \<and>
        (fst p + 1, snd p) \<in> insert ?N (insert ?M S)"
    proof cases
      case 1
      with e ox oy ev show ?thesis by auto
    next
      case 2
      with e ox oy ev X show ?thesis by (auto simp: add.commute)
    next
      case 3
      from hor [OF 3 ev] show ?thesis by simp
    qed
    then show "(fst p - 1, snd p) \<in> insert ?N (insert ?M S)"
      and "(fst p + 1, snd p) \<in> insert ?N (insert ?M S)"
      by simp_all
  next
    fix p assume p: "p \<in> insert ?N (insert ?M S)" and ev: "even (snd p)"
    then consider "p = ?N" | "p = ?M" | "p \<in> S" by blast
    then have "(fst p, snd p - 1) \<in> insert ?N (insert ?M S) \<and>
        (fst p, snd p + 1) \<in> insert ?N (insert ?M S)"
    proof cases
      case 1
      with e ox oy ev show ?thesis by auto
    next
      case 2
      with e ox oy ev X show ?thesis by (auto simp: add.commute)
    next
      case 3
      from ver [OF 3 ev] show ?thesis by simp
    qed
    then show "(fst p, snd p - 1) \<in> insert ?N (insert ?M S)"
      and "(fst p, snd p + 1) \<in> insert ?N (insert ?M S)"
      by simp_all
  next
    show "tree_like (insert ?N (insert ?M S))" by (rule t2)
  qed
qed

subsection \<open>Grids under construction\<close>

lemma count_list_update:
  "i < length xs \<Longrightarrow> xs ! i \<noteq> v \<Longrightarrow> count_list (xs[i := v]) v = Suc (count_list xs v)"
proof (induction xs arbitrary: i)
  case Nil
  then show ?case by simp
next
  case (Cons a xs)
  then show ?case by (cases i) auto
qed

lemma open_count_grid_upd:
  assumes "0 \<le> x" "0 \<le> y" and h: "holds g (x, y) c" and c: "c \<noteq> space"
  shows "open_count (grid_upd g x y space) = Suc (open_count g)"
proof -
  let ?f = "\<lambda>row. count_list row space"
  from h have j: "nat y < length g" and i: "nat x < length (g ! nat y)"
    and v: "g ! nat y ! nat x \<noteq> space"
    using assms(1,2) c by (auto simp: holds_def)
  have "map ?f (grid_upd g x y space) = (map ?f g)[nat y := Suc (?f (g ! nat y))]"
    using count_list_update [OF i v] by (simp add: grid_upd_def map_update)
  then have "open_count (grid_upd g x y space)
      = sum_list (map ?f g) + Suc (?f (g ! nat y)) - map ?f g ! nat y"
    using j by (simp add: open_count_def sum_list_update)
  also have "\<dots> = Suc (sum_list (map ?f g))" using j by simp
  finally show ?thesis by (simp add: open_count_def)
qed

lemma opens_grid_upd:
  assumes "0 \<le> x" "0 \<le> y" and h: "holds g (x, y) c"
  shows "opens (grid_upd g x y space) = insert (x, y) (opens g)"
proof -
  from h have "holds g (x, y) (g ! nat y ! nat x)" by (simp add: holds_def)
  then show ?thesis
    unfolding opens_def by (auto simp: holds_grid_upd [OF assms(1,2)])
qed

lemma holds_grid_upd_other:
  assumes "0 \<le> x" "0 \<le> y" "p \<noteq> (x, y)"
  shows "holds (grid_upd g x y v) p c \<longleftrightarrow> holds g p c"
  using holds_grid_upd [OF assms(1,2), of g v p c] assms(3) by simp

lemma dims_grid_upd: "dims n m g \<Longrightarrow> dims n m (grid_upd g x y v)"
proof -
  assume d: "dims n m g"
  have "length row = nat m" if "row \<in> set (grid_upd g x y v)" for row
  proof -
    from that obtain j where j: "j < length g" "row = grid_upd g x y v ! j"
      by (metis in_set_conv_nth length_grid_upd)
    then have "length row = length (g ! j)" by simp
    with j d show ?thesis by (simp add: dims_def)
  qed
  with d show ?thesis by (simp add: dims_def)
qed

lemma dims_holds:
  assumes "dims n m g" "0 \<le> x" "x < m" "0 \<le> y" "y < n"
  shows "holds g (x, y) (g ! nat y ! nat x)"
proof -
  from assms have j: "nat y < length g" by (simp add: dims_def)
  then have "g ! nat y \<in> set g" by (rule nth_mem)
  with assms show ?thesis by (simp add: holds_def dims_def)
qed

lemma dims_bounds:
  assumes "dims n m g" "holds g (x, y) c"
  shows "0 \<le> x \<and> x < m \<and> 0 \<le> y \<and> y < n"
proof -
  from assms(2) have h: "0 \<le> y" "y < int (length g)" "0 \<le> x" "x < int (length (g ! nat y))"
    by (simp_all add: holds_def)
  then have "g ! nat y \<in> set g" by (intro nth_mem) auto
  with assms(1) h show ?thesis by (auto simp: dims_def split: if_splits)
qed

lemma dims_rectangular: "dims n m g \<Longrightarrow> rectangular g"
proof -
  assume d: "dims n m g"
  show ?thesis
  proof (cases g)
    case Nil
    then show ?thesis by (simp add: rectangular_def)
  next
    case (Cons a g')
    with d have "length (hd g) = nat m" by (simp add: dims_def)
    with d show ?thesis by (simp add: rectangular_def dims_def)
  qed
qed

lemma holds_wall_grid_upd:
  assumes "0 \<le> x" "0 \<le> y" and h: "holds (grid_upd g x y space) p wall"
  shows "holds g p wall \<and> p \<noteq> (x, y)"
proof -
  have "wall \<noteq> space" by (simp add: wall_def space_def)
  with h holds_grid_upd [OF assms(1,2), of g space p wall] show ?thesis
    by (cases "p = (x, y)") simp_all
qed

lemma finite_unvisited: "finite (unvisited n m g)"
proof (rule finite_subset)
  show "unvisited n m g \<subseteq> {p. holds g p wall}" by (auto simp: unvisited_def)
  show "finite {p. holds g p wall}" by (rule finite_holds)
qed

lemma odd_index:
  assumes "odd (x :: int)" "0 < x" "x < m - 1"
  shows "x \<in> (\<lambda>i. 2 * int i + 1) ` {..<nat ((m - 1) div 2)}"
proof (rule image_eqI)
  from assms show "x = 2 * int (nat (x div 2)) + 1" by (elim oddE) simp
  from assms show "nat (x div 2) \<in> {..<nat ((m - 1) div 2)}" by (elim oddE) auto
qed

lemma unvisited_bound: "card (unvisited n m g) \<le> nat ((n - 1) div 2) * nat ((m - 1) div 2)"
proof -
  let ?A = "\<lambda>m. (\<lambda>i. 2 * int i + 1) ` {..<nat ((m - 1) div 2)}"
  have sub: "unvisited n m g \<subseteq> ?A m \<times> ?A n"
  proof
    fix p assume "p \<in> unvisited n m g"
    then have "fst p \<in> ?A m" "snd p \<in> ?A n"
      by (simp_all add: unvisited_def odd_index)
    then show "p \<in> ?A m \<times> ?A n" by (cases p) simp
  qed
  have le: "card (?A k) \<le> nat ((k - 1) div 2)" for k
    using card_image_le [of "{..<nat ((k - 1) div 2)}" "\<lambda>i. 2 * int i + 1"] by simp
  have "card (unvisited n m g) \<le> card (?A m \<times> ?A n)"
    using sub by (intro card_mono) simp_all
  also have "\<dots> = card (?A m) * card (?A n)" by (rule card_cartesian_product)
  also have "\<dots> \<le> nat ((m - 1) div 2) * nat ((n - 1) div 2)"
    using le [of m] le [of n] by (rule mult_le_mono)
  finally show ?thesis by (simp add: mult.commute)
qed

lemma carve_directions_halves:
  assumes "(dx, dy) \<in> set carve_directions"
  shows "(dx div 2, dy div 2) \<in> {(0, 1), (0, - 1), (1, 0), (- 1, 0)}"
    and "dx = 2 * (dx div 2)" and "dy = 2 * (dy div 2)"
  using assms by (auto simp: carve_directions_def)

lemma carve_step:
  assumes inv: "maze_inv n m g" and X: "(x, y) \<in> opens g" and ox: "odd x" and oy: "odd y"
    and d: "(dx, dy) \<in> set carve_directions"
    and guard: "0 < y + dy \<and> y + dy < n - 1 \<and> 0 < x + dx \<and> x + dx < m - 1"
    and w: "cell_at g (x + dx) (y + dy) = Inr wall"
  shows "\<exists>g1 g2. set_cell g (x + dx) (y + dy) space = Inr g1 \<and>
           set_cell g1 (x + dx div 2) (y + dy div 2) space = Inr g2 \<and>
           maze_inv n m g2 \<and> opens g \<subseteq> opens g2 \<and> (x + dx, y + dy) \<in> opens g2 \<and>
           odd (x + dx) \<and> odd (y + dy) \<and> open_count g2 = open_count g + 2 \<and>
           unvisited n m g2 \<subset> unvisited n m g"
proof -
  let ?ex = "dx div 2" and ?ey = "dy div 2"
  let ?N = "(x + dx, y + dy)" and ?M = "(x + dx div 2, y + dy div 2)"
  note e = carve_directions_halves [OF d]
  from inv have dm: "dims n m g" and lt: "lattice_tree (opens g)"
    and oc: "open_count g = card (opens g)"
    by (simp_all add: maze_inv_def)
  from X have hX: "holds g (x, y) space" by (simp add: opens_def)
  from dims_bounds [OF dm hX] have xb: "0 \<le> x" "x < m" "0 \<le> y" "y < n" by simp_all
  from guard have nb: "0 \<le> x + dx" "x + dx < m" "0 \<le> y + dy" "y + dy < n" by simp_all
  from e xb nb have mb: "0 \<le> x + ?ex" "x + ?ex < m" "0 \<le> y + ?ey" "y + ?ey < n"
    by auto
  from cell_at_InrD [OF w nb(1,3)] have hN: "holds g ?N wall"
    using nb by (simp add: holds_def)
  have ws: "wall \<noteq> space" by (simp add: wall_def space_def)
  from hN ws have Nn: "?N \<notin> opens g"
    by (auto simp: opens_def dest: holds_functional)
  have Neq: "?N = (x + 2 * ?ex, y + 2 * ?ey)" using e(2,3) by simp
  from Nn Neq have Nn': "(x + 2 * ?ex, y + 2 * ?ey) \<notin> opens g" by simp
  note carve = lattice_tree_carve [OF lt X ox oy e(1) Nn']
  let ?g1 = "grid_upd g (x + dx) (y + dy) space"
  let ?g2 = "grid_upd ?g1 (x + ?ex) (y + ?ey) space"
  have s1: "set_cell g (x + dx) (y + dy) space = Inr ?g1"
    using hN nb by (intro set_cell_in) (simp_all add: holds_def)
  have MN: "?M \<noteq> ?N" using e by auto
  from dims_holds [OF dm mb] have hM: "holds g ?M (g ! nat (y + ?ey) ! nat (x + ?ex))" .
  with carve(1) have Mc: "g ! nat (y + ?ey) ! nat (x + ?ex) \<noteq> space"
    by (auto simp: opens_def)
  from hM MN have hM1: "holds ?g1 ?M (g ! nat (y + ?ey) ! nat (x + ?ex))"
    by (simp add: holds_grid_upd_other [OF nb(1,3)])
  have s2: "set_cell ?g1 (x + ?ex) (y + ?ey) space = Inr ?g2"
    using hM1 mb by (intro set_cell_in) (simp_all add: holds_def)
  have o1: "opens ?g1 = insert ?N (opens g)"
    using nb(1,3) hN by (rule opens_grid_upd)
  have o2: "opens ?g2 = insert ?M (insert ?N (opens g))"
    using opens_grid_upd [OF mb(1,3) hM1] o1 by simp
  have c1: "open_count ?g1 = Suc (open_count g)"
    using nb(1,3) hN ws by (rule open_count_grid_upd)
  have c2: "open_count ?g2 = Suc (open_count ?g1)"
    using mb(1,3) hM1 Mc by (rule open_count_grid_upd)
  have "lattice_tree (opens ?g2)"
    using carve(2) unfolding o2 Neq by (simp add: insert_commute)
  moreover have "dims n m ?g2" using dm by (intro dims_grid_upd)
  moreover have "open_count ?g2 = card (opens ?g2)"
  proof -
    have "finite (opens g)" unfolding opens_def by (rule finite_holds)
    with carve(1) Nn MN have "card (opens ?g2) = card (opens g) + 2"
      unfolding o2 by simp
    with c1 c2 oc show ?thesis by simp
  qed
  ultimately have inv2: "maze_inv n m ?g2" by (simp add: maze_inv_def)
  have par: "odd (x + dx) \<and> odd (y + dy)"
    using ox oy d by (auto simp: carve_directions_def)
  have "unvisited n m ?g2 \<subseteq> unvisited n m g"
  proof
    fix p assume p: "p \<in> unvisited n m ?g2"
    then have "holds ?g2 p wall" by (simp add: unvisited_def)
    from holds_wall_grid_upd [OF mb(1,3) this] have "holds ?g1 p wall" by simp
    from holds_wall_grid_upd [OF nb(1,3) this] have "holds g p wall" by simp
    with p show "p \<in> unvisited n m g" by (simp add: unvisited_def)
  qed
  moreover have "?N \<in> unvisited n m g"
    using par guard hN by (simp add: unvisited_def)
  moreover have "?N \<notin> unvisited n m ?g2"
  proof
    assume "?N \<in> unvisited n m ?g2"
    then have "holds ?g2 ?N wall" by (simp add: unvisited_def)
    moreover have "?N \<in> opens ?g2" unfolding o2 by blast
    then have "holds ?g2 ?N space" by (simp add: opens_def)
    ultimately show False using ws by (auto dest: holds_functional)
  qed
  ultimately have unv: "unvisited n m ?g2 \<subset> unvisited n m g" by blast
  show ?thesis
  proof (rule exI [of _ ?g1], rule exI [of _ ?g2], intro conjI)
    show "set_cell g (x + dx) (y + dy) space = Inr ?g1" by (rule s1)
    show "set_cell ?g1 (x + ?ex) (y + ?ey) space = Inr ?g2" by (rule s2)
    show "maze_inv n m ?g2" by (rule inv2)
    show "opens g \<subseteq> opens ?g2" unfolding o2 by blast
    show "?N \<in> opens ?g2" unfolding o2 by blast
    show "odd (x + dx)" "odd (y + dy)" using par by simp_all
    show "open_count ?g2 = open_count g + 2" using c1 c2 by simp
    show "unvisited n m ?g2 \<subset> unvisited n m g" by (rule unv)
  qed
qed

subsection \<open>The carving keeps the invariant\<close>

lemma carve_post_loop:
  assumes "carve_post n m (Suc (d - 1)) (g, Suc k) 0 r" "d \<noteq> 0"
  shows "carve_post n m d (g, k) 1 r"
  using assms by (auto simp: carve_post_def)

lemma carve_post_raise:
  assumes "carve_post n m d (g2, k) 1 (Inl e)" and "unvisited n m g2 \<subset> unvisited n m g"
  shows "carve_post n m (Suc d) (g, k) 0 (Inl e)"
proof -
  from assms(1) have e: "e = RecursionError" and d: "d \<le> card (unvisited n m g2)"
    by (auto simp: carve_post_def)
  from assms(2) have "card (unvisited n m g2) < card (unvisited n m g)"
    by (intro psubset_card_mono finite_unvisited)
  with e d show ?thesis by (simp add: carve_post_def)
qed

lemma carve_post_seq:
  assumes a: "carve_post n m d (g2, k) 1 (Inr (g3, k3))"
    and b: "carve_post n m (Suc d) (g3, k3) 0 r"
    and sub: "opens g \<subseteq> opens g2" and unv: "unvisited n m g2 \<subset> unvisited n m g"
    and cnt: "open_count g2 = open_count g + 2"
  shows "carve_post n m (Suc d) (g, k) 0 r"
proof -
  from a have sub3: "opens g2 \<subseteq> opens g3" and unv3: "unvisited n m g3 \<subseteq> unvisited n m g2"
    and k3: "k + 1 \<le> k3" and cnt3: "open_count g3 + 2 * (k + 1) = open_count g2 + 2 * k3"
    by (auto simp: carve_post_def)
  from unv unv3 have unv': "unvisited n m g3 \<subseteq> unvisited n m g" by blast
  from b consider
    (raise) "r = Inl RecursionError" "Suc d \<le> card (unvisited n m g3)"
    | (return) g' k' where "r = Inr (g', k')" "maze_inv n m g'" "opens g3 \<subseteq> opens g'"
        "unvisited n m g' \<subseteq> unvisited n m g3" "k3 \<le> k'"
        "open_count g' + 2 * k3 = open_count g3 + 2 * k'"
    by (auto simp: carve_post_def)
  then show ?thesis
  proof cases
    case raise
    from unv' have "card (unvisited n m g3) \<le> card (unvisited n m g)"
      by (intro card_mono finite_unvisited)
    with raise show ?thesis by (simp add: carve_post_def)
  next
    case return
    from sub sub3 return(3) have "opens g \<subseteq> opens g'" by blast
    moreover from unv' return(4) have "unvisited n m g' \<subseteq> unvisited n m g" by blast
    moreover from k3 return(5) have "k \<le> k'" by simp
    moreover from cnt cnt3 return(6) have "open_count g' + 2 * k = open_count g + 2 * k'"
      by simp
    ultimately show ?thesis using return(1,2) by (simp add: carve_post_def)
  qed
qed

lemma carve_correct:
  "valid_shuffles sh \<Longrightarrow> maze_inv n m (fst s) \<Longrightarrow> (x, y) \<in> opens (fst s) \<Longrightarrow> odd x \<Longrightarrow> odd y \<Longrightarrow>
     carve_post n m d s 1 (carve_passages d n m sh x y s)"
  "valid_shuffles sh \<Longrightarrow> set ds \<subseteq> set carve_directions \<Longrightarrow> maze_inv n m (fst s) \<Longrightarrow>
     (x, y) \<in> opens (fst s) \<Longrightarrow> odd x \<Longrightarrow> odd y \<Longrightarrow>
     carve_post n m (Suc d) s 0 (carve_loop d n m sh x y ds s)"
proof (induction d n m sh x y s and d n m sh x y ds s rule: carve_passages_carve_loop.induct)
  case (1 d n m sh x y g k)
  show ?case
  proof (cases "d = 0")
    case True
    then show ?thesis by (simp add: carve_post_def)
  next
    case False
    from "1.prems"(1) have "set (sh k) \<subseteq> set carve_directions"
      by (metis valid_shuffles_def mset_eq_setD subset_refl)
    from "1.IH" [OF False "1.prems"(1) this] "1.prems" have
      "carve_post n m (Suc (d - 1)) (g, Suc k) 0 (carve_loop (d - 1) n m sh x y (sh k) (g, Suc k))"
      by simp
    from carve_post_loop [OF this False] False show ?thesis by simp
  qed
next
  case (2 d n m sh x y s)
  from "2.prems" show ?case
    by (cases s) (simp add: carve_post_def)
next
  case (3 d n m sh x y dx dy ds g k)
  let ?nx = "x + dx" and ?ny = "y + dy"
  from "3.prems" have vs: "valid_shuffles sh" and dsub: "set ds \<subseteq> set carve_directions"
    and dir: "(dx, dy) \<in> set carve_directions" and inv: "maze_inv n m g"
    and X: "(x, y) \<in> opens g" and ox: "odd x" and oy: "odd y"
    by simp_all
  show ?case
  proof (cases "0 < ?ny \<and> ?ny < n - 1 \<and> 0 < ?nx \<and> ?nx < m - 1")
    case False
    from "3.IH"(4) [OF refl refl False vs dsub] inv X ox oy
    have "carve_post n m (Suc d) (g, k) 0 (carve_loop d n m sh x y ds (g, k))" by simp
    moreover have "carve_loop d n m sh x y ((dx, dy) # ds) (g, k) = carve_loop d n m sh x y ds (g, k)"
      by (subst carve_loop.simps(2)) (simp only: Let_def False if_False)
    ultimately show ?thesis by simp
  next
    case guard: True
    from inv have dm: "dims n m g" by (simp add: maze_inv_def)
    from guard have "0 \<le> ?nx" "?nx < m" "0 \<le> ?ny" "?ny < n" by simp_all
    from dims_holds [OF dm this]
    have c: "cell_at g ?nx ?ny = Inr (g ! nat ?ny ! nat ?nx)"
      by (intro cell_at_in) (simp_all add: holds_def)
    show ?thesis
    proof (cases "g ! nat ?ny ! nat ?nx = wall")
      case False
      from "3.IH"(3) [OF refl refl guard c False vs dsub] inv X ox oy
      have "carve_post n m (Suc d) (g, k) 0 (carve_loop d n m sh x y ds (g, k))" by simp
      with guard c False show ?thesis by (simp add: Let_def)
    next
      case True
      with c have w: "cell_at g ?nx ?ny = Inr wall" by simp
      from carve_step [OF inv X ox oy dir guard w] obtain g1 g2 where
        s1: "set_cell g ?nx ?ny space = Inr g1"
        and s2: "set_cell g1 (x + dx div 2) (y + dy div 2) space = Inr g2"
        and inv2: "maze_inv n m g2" and sub2: "opens g \<subseteq> opens g2"
        and N2: "(?nx, ?ny) \<in> opens g2" and par: "odd ?nx" "odd ?ny"
        and cnt2: "open_count g2 = open_count g + 2"
        and unv2: "unvisited n m g2 \<subset> unvisited n m g"
        by blast
      from "3.IH"(1) [OF refl refl guard c True s1 s2 vs] inv2 N2 par
      have post: "carve_post n m d (g2, k) 1 (carve_passages d n m sh ?nx ?ny (g2, k))" by simp
      show ?thesis
      proof (cases "carve_passages d n m sh ?nx ?ny (g2, k)")
        case (Inl e)
        then have "carve_loop d n m sh x y ((dx, dy) # ds) (g, k) = Inl e"
          using guard w s1 s2 by (simp add: Let_def)
        moreover from post Inl unv2 have "carve_post n m (Suc d) (g, k) 0 (Inl e)"
          by (intro carve_post_raise [of n m d g2 k e g]) simp_all
        ultimately show ?thesis by simp
      next
        case (Inr s3)
        obtain g3 k3 where s3: "s3 = (g3, k3)" by (cases s3)
        note r3 = Inr [unfolded s3]
        from post r3 have post3: "carve_post n m d (g2, k) 1 (Inr (g3, k3))" by simp
        then have inv3: "maze_inv n m g3" and sub3: "opens g2 \<subseteq> opens g3"
          by (auto simp: carve_post_def)
        from X sub2 sub3 have X3: "(x, y) \<in> opens g3" by blast
        from "3.IH"(2) [OF refl refl guard c True s1 s2 r3 vs dsub] inv3 X3 ox oy
        have "carve_post n m (Suc d) (g3, k3) 0 (carve_loop d n m sh x y ds (g3, k3))" by simp
        from carve_post_seq [OF post3 this sub2 unv2 cnt2]
        have "carve_post n m (Suc d) (g, k) 0 (carve_loop d n m sh x y ds (g3, k3))" .
        moreover have "carve_loop d n m sh x y ((dx, dy) # ds) (g, k)
            = carve_loop d n m sh x y ds (g3, k3)"
          using guard w s1 s2 r3 by (simp add: Let_def)
        ultimately show ?thesis by simp
      qed
    qed
  qed
qed

subsection \<open>The start of the carving\<close>

lemma py_range_odd:
  assumes "v \<in> set (py_range 1 m 2)"
  shows "odd v \<and> 1 \<le> v \<and> v < m"
proof -
  from assms obtain i where i: "i < nat (m div 2)" and v: "v = 1 + 2 * int i"
    by (auto simp: py_range_def)
  from i have "int i < m div 2" by simp
  then have "2 * int i + 1 < m" by simp
  with v show ?thesis by simp
qed

lemma py_range_not_Nil: "2 \<le> m \<Longrightarrow> py_range 1 m 2 \<noteq> []"
  by (simp add: py_range_def)

lemma random_choice_member: "xs \<noteq> [] \<Longrightarrow> \<exists>v \<in> set xs. random_choice xs r = Inr v"
  by (simp add: random_choice_def)

lemma holds_initialize_grid:
  assumes "holds (initialize_grid n m) p c"
  shows "c = wall"
proof -
  let ?init = "initialize_grid n m"
  from assms have j: "nat (snd p) < length ?init" and i: "nat (fst p) < length (?init ! nat (snd p))"
    and c: "c = ?init ! nat (snd p) ! nat (fst p)"
    by (auto simp: holds_def)
  from j have "?init ! nat (snd p) \<in> set ?init" by (rule nth_mem)
  then have row: "?init ! nat (snd p) = replicate (nat m) wall"
    by (auto simp: initialize_grid_def)
  from i have "?init ! nat (snd p) ! nat (fst p) \<in> set (?init ! nat (snd p))" by (rule nth_mem)
  with row c show ?thesis by auto
qed

lemma count_list_replicate_other: "a \<noteq> b \<Longrightarrow> count_list (replicate k a) b = 0"
  by (induction k) simp_all

lemma open_count_initialize_grid: "open_count (initialize_grid n m) = 0"
  by (simp add: open_count_def initialize_grid_def count_list_replicate_other wall_def space_def)

lemma dims_initialize_grid: "dims n m (initialize_grid n m)"
  by (simp add: dims_def initialize_grid_def)

lemma start_cell:
  assumes sx: "odd sx" "1 \<le> sx" "sx < m" and sy: "odd sy" "1 \<le> sy" "sy < n"
  shows "\<exists>g. set_cell (initialize_grid n m) sx sy space = Inr g \<and> maze_inv n m g \<and>
           (sx, sy) \<in> opens g \<and> open_count g = 1"
proof -
  let ?init = "initialize_grid n m"
  let ?g = "grid_upd ?init sx sy space"
  have ws: "wall \<noteq> space" by (simp add: wall_def space_def)
  from sx sy have b: "0 \<le> sx" "sx < m" "0 \<le> sy" "sy < n" by simp_all
  from dims_holds [OF dims_initialize_grid b]
  have "holds ?init (sx, sy) (?init ! nat sy ! nat sx)" .
  with holds_initialize_grid have h: "holds ?init (sx, sy) wall" by metis
  have "opens ?init = {}"
    unfolding opens_def using holds_initialize_grid [of n m _ space] ws by auto
  with opens_grid_upd [OF b(1,3) h] have o: "opens ?g = {(sx, sy)}" by simp
  have c: "open_count ?g = 1"
    using open_count_grid_upd [OF b(1,3) h ws] by (simp add: open_count_initialize_grid)
  have s: "set_cell ?init sx sy space = Inr ?g"
    using h b by (intro set_cell_in) (simp_all add: holds_def)
  have "maze_inv n m ?g"
    unfolding maze_inv_def o c
    using dims_grid_upd [OF dims_initialize_grid] lattice_tree_single [OF sx(1) sy(1)]
    by simp
  with s o c show ?thesis by blast
qed

lemma generate_maze_run_correct:
  assumes n: "2 \<le> n" and m: "2 \<le> m" and vs: "valid_shuffles sh"
  shows "(generate_maze_run depth n m rx ry sh = Inl RecursionError \<and>
            depth \<le> nat ((n - 1) div 2) * nat ((m - 1) div 2)) \<or>
         (\<exists>g k. generate_maze_run depth n m rx ry sh = Inr (g, k) \<and> maze_inv n m g \<and>
            0 < k \<and> open_count g + 1 = 2 * k)"
proof -
  from random_choice_member [OF py_range_not_Nil [OF m], of rx]
  obtain sx where sx: "sx \<in> set (py_range 1 m 2)" "random_choice (py_range 1 m 2) rx = Inr sx"
    by blast
  from random_choice_member [OF py_range_not_Nil [OF n], of ry]
  obtain sy where sy: "sy \<in> set (py_range 1 n 2)" "random_choice (py_range 1 n 2) ry = Inr sy"
    by blast
  note px = py_range_odd [OF sx(1)] and py = py_range_odd [OF sy(1)]
  from start_cell [of sx m sy n] px py obtain g0 where
    s: "set_cell (initialize_grid n m) sx sy space = Inr g0" and inv0: "maze_inv n m g0"
    and X: "(sx, sy) \<in> opens g0" and c0: "open_count g0 = 1"
    by blast
  from sx(2) sy(2) s have run: "generate_maze_run depth n m rx ry sh
      = carve_passages depth n m sh sx sy (g0, 0)"
    by (simp add: generate_maze_run_def)
  from carve_correct(1) [OF vs, of n m "(g0, 0)" sx sy depth] inv0 X px py
  have "carve_post n m depth (g0, 0) 1 (carve_passages depth n m sh sx sy (g0, 0))" by simp
  then consider
    (raise) "carve_passages depth n m sh sx sy (g0, 0) = Inl RecursionError"
      "depth \<le> card (unvisited n m g0)"
    | (return) g k where "carve_passages depth n m sh sx sy (g0, 0) = Inr (g, k)"
        "maze_inv n m g" "1 \<le> k" "open_count g + 2 = open_count g0 + 2 * k"
    by (auto simp: carve_post_def)
  then show ?thesis
  proof cases
    case raise
    from raise(2) unvisited_bound [of n m g0]
    have "depth \<le> nat ((n - 1) div 2) * nat ((m - 1) div 2)" by simp
    with raise(1) run show ?thesis by simp
  next
    case return
    with run c0 have "generate_maze_run depth n m rx ry sh = Inr (g, k) \<and> maze_inv n m g \<and>
        0 < k \<and> open_count g + 1 = 2 * k"
      by simp
    then show ?thesis by blast
  qed
qed

section \<open>A generated maze is perfect\<close>

text \<open>
  Claim C1, as stated: a generated maze is connected, has exactly one simple path
  between any two open cells, and its number of open cells is one less than the number
  of nodes the carving visited. The count fails: the maze \<open>small_maze\<close> is generated
  with 4 nodes visited and has 7 open cells, not 3.
\<close>

theorem generate_maze_count_counterexample:
  "generate_maze_run 1000 5 5 0 0 (\<lambda>_. carve_directions) = Inr (small_maze, 4) \<and>
   generate_maze 1000 5 5 0 0 (\<lambda>_. carve_directions) = Inr small_maze \<and>
   open_count small_maze = 7 \<and> open_count small_maze \<noteq> 4 - 1"
  by code_simp

text \<open>
  The recursion limit is met by small mazes too when the stack is nearly full: the run
  above nests four activations of \<^verbatim>\<open>carve_passages\<close> and raises when there is room
  for three.
\<close>

lemma generate_maze_recursion_limit:
  "generate_maze 3 5 5 0 0 (\<lambda>_. carve_directions) = Inl RecursionError \<and>
   generate_maze 4 5 5 0 0 (\<lambda>_. carve_directions) = Inr small_maze"
  by code_simp

text \<open>
  Claim C1, amended: for \<open>n \<ge> 5\<close>, \<open>m \<ge> 5\<close> and every outcome of the random choices
  (the two start choices \<open>rx\<close>, \<open>ry\<close> and the shuffles \<open>sh\<close>), \<^verbatim>\<open>generate_maze\<close>
  either raises RecursionError or returns a grid. It raises only when the stack has
  room for no more nested activations of \<^verbatim>\<open>carve_passages\<close> than the grid has nodes,
  \<open>((n - 1) div 2) * ((m - 1) div 2)\<close>. In a grid it returns, any two open cells are
  joined by exactly one simple path through 4-adjacent open cells, hence the maze is
  connected and has no cycle; and the number of open cells is \<open>2 * k - 1\<close>, where
  \<open>k \<ge> 1\<close> is the number of nodes the carving visited: one cell per node and one
  connecting cell per edge of the tree.
\<close>

theorem generate_maze_perfect:
  assumes "5 \<le> n" and "5 \<le> m" and "valid_shuffles sh"
  shows "(generate_maze_run depth n m rx ry sh = Inl RecursionError \<and>
          generate_maze depth n m rx ry sh = Inl RecursionError \<and>
          depth \<le> nat ((n - 1) div 2) * nat ((m - 1) div 2)) \<or>
         (\<exists>g k. generate_maze_run depth n m rx ry sh = Inr (g, k) \<and>
           generate_maze depth n m rx ry sh = Inr g \<and>
           (\<forall>a b. open_cell g a \<and> open_cell g b \<longrightarrow>
                  (\<exists>!ps. simple_path {p. open_cell g p} a b ps)) \<and>
           card {p. open_cell g p} = open_count g \<and>
           0 < k \<and> open_count g = 2 * k - 1)"
proof -
  from assms have "2 \<le> n" "2 \<le> m" by simp_all
  from generate_maze_run_correct [OF this assms(3), of depth rx ry]
  consider
    (raise) "generate_maze_run depth n m rx ry sh = Inl RecursionError"
      "depth \<le> nat ((n - 1) div 2) * nat ((m - 1) div 2)"
    | (return) g k where "generate_maze_run depth n m rx ry sh = Inr (g, k)" "maze_inv n m g"
        "0 < k" "open_count g + 1 = 2 * k"
    by blast
  then show ?thesis
  proof cases
    case raise
    from raise(1) have "generate_maze depth n m rx ry sh = Inl RecursionError"
      by (simp add: generate_maze_def)
    with raise show ?thesis by blast
  next
    case return
    note r = return(1) and inv = return(2) and k = return(3) and cnt = return(4)
    from inv have dm: "dims n m g" and tree: "tree_like (opens g)"
      and oc: "open_count g = card (opens g)"
      by (simp_all add: maze_inv_def lattice_tree_def)
    have eq: "{p. open_cell g p} = opens g"
      unfolding opens_def using open_cell_holds [OF dims_rectangular [OF dm]] by simp
    have paths: "\<exists>!ps. simple_path {p. open_cell g p} a b ps"
      if "open_cell g a \<and> open_cell g b" for a b
    proof (rule ex_ex1I)
      from that eq have "a \<in> opens g" "b \<in> opens g" by auto
      with tree show "\<exists>ps. simple_path {p. open_cell g p} a b ps"
        unfolding eq tree_like_def by blast
    next
      fix ps qs
      assume "simple_path {p. open_cell g p} a b ps" "simple_path {p. open_cell g p} a b qs"
      with tree show "ps = qs" unfolding eq tree_like_def by blast
    qed
    from r have "generate_maze depth n m rx ry sh = Inr g" by (simp add: generate_maze_def)
    with r paths eq oc k cnt have "\<exists>g k. generate_maze_run depth n m rx ry sh = Inr (g, k) \<and>
           generate_maze depth n m rx ry sh = Inr g \<and>
           (\<forall>a b. open_cell g a \<and> open_cell g b \<longrightarrow>
                  (\<exists>!ps. simple_path {p. open_cell g p} a b ps)) \<and>
           card {p. open_cell g p} = open_count g \<and>
           0 < k \<and> open_count g = 2 * k - 1"
      by (intro exI [of _ g] exI [of _ k]) auto
    then show ?thesis by (rule disjI2)
  qed
qed

theorem generate_maze_perfect_witness:
  "(5 :: int) \<le> 5 \<and> valid_shuffles (\<lambda>_. carve_directions) \<and>
   (\<exists>g k. generate_maze_run 1000 5 5 0 0 (\<lambda>_. carve_directions) = Inr (g, k) \<and>
           generate_maze 1000 5 5 0 0 (\<lambda>_. carve_directions) = Inr g \<and>
           (\<forall>a b. open_cell g a \<and> open_cell g b \<longrightarrow>
                  (\<exists>!ps. simple_path {p. open_cell g p} a b ps)) \<and>
           card {p. open_cell g p} = open_count g \<and>
           0 < k \<and> open_count g = 2 * k - 1)"
proof -
  have five: "(5 :: int) \<le> 5" by simp
  have vs: "valid_shuffles (\<lambda>_. carve_directions)" by (simp add: valid_shuffles_def)
  have "\<not> (1000 :: nat) \<le> nat ((5 - 1) div 2) * nat ((5 - 1) div 2)" by simp
  with generate_maze_perfect [OF five five vs, of 1000 0 0] five vs show ?thesis by blast
qed

end
